theory Spec2Isabelle
  imports Complex_Main
begin

text \<open>
  The \<open>\<phi>\<close>-adic development of polynomials and the valuations, effective degrees and
  Newton polygons read off from it: an embedding of the class \<^verbatim>\<open>DevelopingValuation\<close> of
  \<^verbatim>\<open>developing_valuation.py\<close>, with the properties its specification states. The base
  ring is exact: the rings of truncated precision of the docstrings are outside this
  development.
\<close>

section \<open>Polynomials of the domain\<close>

text \<open>
  Modelled from the spec: the elements of the polynomial domain. The polynomial ring and
  its arithmetic belong to the library and are not part of \<^verbatim>\<open>developing_valuation.py\<close>; the
  spec asks of them degree, coefficient by index, monomials, exact addition and
  multiplication, division with remainder, and the monic, constant and zero tests. A
  polynomial is its dense list of coefficients, lowest degree first, without trailing zero;
  the zero polynomial is the empty list. The base ring is any commutative ring with one.
\<close>

definition is_poly :: "'a::zero list \<Rightarrow> bool" where
  "is_poly p \<longleftrightarrow> (p = [] \<or> last p \<noteq> 0)"

text \<open>
  Removing trailing zeros: every operation below returns a list in this normal form.
\<close>

fun strip :: "'a::zero list \<Rightarrow> 'a list" where
  "strip [] = []"
| "strip (a # p) = (if a = 0 \<and> strip p = [] then [] else a # strip p)"

text \<open>
  Modelled from the spec: coefficient by index, \<^verbatim>\<open>f[i]\<close>, which is zero beyond the degree.
\<close>

definition coeff :: "'a::zero list \<Rightarrow> nat \<Rightarrow> 'a" where
  "coeff p i = (if i < length p then p ! i else 0)"

text \<open>
  Modelled from the spec: \<^verbatim>\<open>f.degree()\<close>; the zero polynomial has degree \<open>-1\<close>.
\<close>

definition degree :: "'a list \<Rightarrow> int" where
  "degree p = int (length p) - 1"

text \<open>
  Modelled from the spec: the constant polynomial of a base-ring element.
\<close>

definition const :: "'a::zero \<Rightarrow> 'a list" where
  "const c = (if c = 0 then [] else [c])"

text \<open>
  Modelled from the spec: \<^verbatim>\<open>domain.one()\<close> and the generator \<^verbatim>\<open>domain.gen()\<close>.
\<close>

definition one :: "'a::{zero,one} list" where
  "one = const 1"

definition gen :: "'a::{zero,one} list" where
  "gen = strip [0, 1]"

text \<open>
  Modelled from the spec: addition, negation and subtraction of polynomials.
\<close>

fun add_raw :: "'a::plus list \<Rightarrow> 'a list \<Rightarrow> 'a list" where
  "add_raw [] q = q"
| "add_raw p [] = p"
| "add_raw (a # p) (b # q) = (a + b) # add_raw p q"

definition padd :: "'a::{zero,plus} list \<Rightarrow> 'a list \<Rightarrow> 'a list" where
  "padd p q = strip (add_raw p q)"

definition pneg :: "'a::{zero,uminus} list \<Rightarrow> 'a list" where
  "pneg p = strip (map uminus p)"

definition psub :: "'a::{zero,plus,uminus} list \<Rightarrow> 'a list \<Rightarrow> 'a list" where
  "psub p q = padd p (pneg q)"

text \<open>
  Modelled from the spec: the product \<^verbatim>\<open>c*g\<close> of a base-ring element and a polynomial.
\<close>

definition smult :: "'a::{zero,times} \<Rightarrow> 'a list \<Rightarrow> 'a list" where
  "smult c p = strip (map (\<lambda>a. c * a) p)"

text \<open>
  Modelled from the spec: \<^verbatim>\<open>f << n\<close>, multiplication by the \<open>n\<close>-th power of the generator.
\<close>

definition shift :: "nat \<Rightarrow> 'a::zero list \<Rightarrow> 'a list" where
  "shift n p = strip (replicate n 0 @ p)"

text \<open>
  Modelled from the spec: multiplication of polynomials and powers.
\<close>

definition pmul :: "'a::{zero,plus,times} list \<Rightarrow> 'a list \<Rightarrow> 'a list" where
  "pmul p q = foldr (\<lambda>a r. padd (smult a q) (shift 1 r)) p []"

fun ppow :: "'a::{zero,one,plus,times} list \<Rightarrow> nat \<Rightarrow> 'a list" where
  "ppow p 0 = one"
| "ppow p (Suc n) = pmul (ppow p n) p"

text \<open>
  Python's \<^verbatim>\<open>sum\<close> of a list of polynomials: a left fold that starts from zero.
\<close>

definition psum :: "'a::{zero,plus} list list \<Rightarrow> 'a list" where
  "psum ps = foldl padd [] ps"

text \<open>
  Modelled from the spec: \<^verbatim>\<open>f(g)\<close>, substitution of a polynomial for the generator, by Horner's rule.
\<close>

definition pcompose :: "'a::{zero,plus,times} list \<Rightarrow> 'a list \<Rightarrow> 'a list" where
  "pcompose f p = foldr (\<lambda>a r. padd (pmul r p) (const a)) f []"

text \<open>
  Modelled from the spec: \<^verbatim>\<open>f.quo_rem(g)\<close>, division with remainder in the polynomial domain.
  Long division from the leading coefficient of \<open>f\<close> down: each step multiplies the
  remainder so far by the generator, adds the next coefficient and subtracts the multiple
  of \<open>g\<close> that cancels the term of degree \<open>deg g\<close>. The source divides by the key polynomial
  only, which the constructor makes monic, so the division by the leading coefficient of
  \<open>g\<close> is left out.
\<close>

definition quo_rem_step :: "'a::comm_ring_1 list \<Rightarrow> 'a \<Rightarrow> 'a list \<times> 'a list \<Rightarrow> 'a list \<times> 'a list" where
  "quo_rem_step g a qr =
     (let s = padd (shift 1 (snd qr)) (const a);
          b = coeff s (length g - 1)
      in (padd (shift 1 (fst qr)) (const b), psub s (smult b g)))"

definition poly_quo_rem :: "'a::comm_ring_1 list \<Rightarrow> 'a list \<Rightarrow> 'a list \<times> 'a list" where
  "poly_quo_rem f g = foldr (quo_rem_step g) f ([], [])"

text \<open>
  Modelled from the spec: \<^verbatim>\<open>f.is_monic()\<close> and \<^verbatim>\<open>f.is_constant()\<close>.
\<close>

definition is_monic :: "'a::{zero,one} list \<Rightarrow> bool" where
  "is_monic p \<longleftrightarrow> p \<noteq> [] \<and> last p = 1"

definition is_constant :: "'a list \<Rightarrow> bool" where
  "is_constant p \<longleftrightarrow> degree p \<le> 0"

section \<open>Parents, elements and errors\<close>

text \<open>
  Modelled from the spec: the parents the source asks questions of. A parent is the base
  ring or a polynomial ring over it with named generators; Sage parents are unique, so the
  identity test \<^verbatim>\<open>is\<close> is equality. \<open>is_PolynomialRing\<close> and \<open>ngens\<close> are the two queries
  of the constructor. \<open>is_PolynomialRing\<close> is the library's test for a univariate polynomial
  ring, the first clause of the spec's contract of the constructor: it is false on the base
  ring and on a polynomial ring with several generators.
\<close>

datatype ring = Base_ring | Polynomial_ring "string list"

fun is_PolynomialRing :: "ring \<Rightarrow> bool" where
  "is_PolynomialRing (Polynomial_ring gens) = (length gens = 1)"
| "is_PolynomialRing Base_ring = False"

fun ngens :: "ring \<Rightarrow> nat" where
  "ngens (Polynomial_ring gens) = length gens"
| "ngens Base_ring = 1"

text \<open>
  Modelled from the spec: an element is a base-ring element or a polynomial that carries
  its parent; \<open>parent_of\<close> is \<^verbatim>\<open>f.parent()\<close> and \<open>poly_of\<close> reads the coefficient list.
\<close>

datatype 'a element = Scalar 'a | Polynomial ring "'a list"

fun parent_of :: "'a element \<Rightarrow> ring" where
  "parent_of (Scalar c) = Base_ring"
| "parent_of (Polynomial R p) = R"

fun poly_of :: "'a::zero element \<Rightarrow> 'a list" where
  "poly_of (Scalar c) = const c"
| "poly_of (Polynomial R p) = p"

text \<open>
  The exceptions the source and the Python built-ins raise, each with the format string of its message.
\<close>

datatype error = TypeError string | NotImplementedError string | ValueError string | IndexError string

text \<open>
  Modelled from the spec: \<^verbatim>\<open>domain.coerce(x)\<close>. An element of the domain is returned as it
  is, a base-ring element becomes a constant polynomial of a polynomial ring, anything else
  is a type error.
\<close>

fun coerce :: "ring \<Rightarrow> 'a::zero element \<Rightarrow> error + 'a element" where
  "coerce R (Polynomial R' p) =
     (if R' = R then Inr (Polynomial R' p) else Inl (TypeError ''no canonical coercion''))"
| "coerce R (Scalar c) =
     (if R = Base_ring then Inr (Scalar c) else Inr (Polynomial R (const c)))"

text \<open>
  Modelled from the spec: the parent of a valuation, which fixes its domain (\<^verbatim>\<open>parent.domain()\<close>).
\<close>

datatype space = DiscretePseudoValuationSpace ring

fun space_domain :: "space \<Rightarrow> ring" where
  "space_domain (DiscretePseudoValuationSpace R) = R"

section \<open>The class DevelopingValuation\<close>

text \<open>
  An instance holds the parent handed to the base class and the key polynomial \<^verbatim>\<open>_phi\<close>.
  The abstract method \<^verbatim>\<open>valuations\<close> is supplied by subclasses; the functions that call it
  take it as their first argument.
\<close>

record 'a DevelopingValuation =
  self_parent :: space
  self_phi :: "'a element"

text \<open>
  \<^verbatim>\<open>__init__\<close>: the checks in the order of the source, then the two fields.
\<close>

definition DevelopingValuation_init ::
  "space \<Rightarrow> 'a::comm_ring_1 element \<Rightarrow> error + 'a DevelopingValuation" where
  "DevelopingValuation_init parent phi =
     (let domain = space_domain parent in
      if \<not> is_PolynomialRing domain then
        Inl (TypeError ''domain must be a polynomial ring but %r is not'')
      else if \<not> ngens domain = 1 then
        Inl (NotImplementedError ''domain must be a univariate polynomial ring but %r is not'')
      else
        case coerce domain phi of
          Inl e \<Rightarrow> Inl e
        | Inr phi \<Rightarrow>
            if is_constant (poly_of phi) \<or> \<not> is_monic (poly_of phi) then
              Inl (ValueError ''phi must be a monic non-constant polynomial but %r is not'')
            else Inr \<lparr>self_parent = parent, self_phi = phi\<rparr>)"

text \<open>
  \<^verbatim>\<open>self.domain()\<close> of the base class and the accessor \<^verbatim>\<open>phi\<close>.
\<close>

definition domain :: "'a DevelopingValuation \<Rightarrow> ring" where
  "domain self = space_domain (self_parent self)"

definition phi :: "'a DevelopingValuation \<Rightarrow> 'a element" where
  "phi self = self_phi self"

text \<open>
  \<^verbatim>\<open>__quo_rem_monomial\<close>: quotient and remainder of a monomial by \<open>\<phi>\<close>. The method is
  cached in the source; the cache stores what this function computes and changes no result.
\<close>

definition DevelopingValuation__quo_rem_monomial ::
  "'a::comm_ring_1 DevelopingValuation \<Rightarrow> nat \<Rightarrow> 'a list \<times> 'a list" where
  "DevelopingValuation__quo_rem_monomial self deg =
     (let f = shift deg one in poly_quo_rem f (poly_of (phi self)))"

text \<open>
  \<^verbatim>\<open>__quo_rem\<close>: quotient and remainder of \<open>f\<close> by \<open>\<phi>\<close>, summed up from the monomials of
  \<open>f\<close>.
\<close>

definition DevelopingValuation__quo_rem ::
  "'a::comm_ring_1 DevelopingValuation \<Rightarrow> 'a list \<Rightarrow> 'a list \<times> 'a list" where
  "DevelopingValuation__quo_rem self f =
     (let qr = map (DevelopingValuation__quo_rem_monomial self) [0 ..< nat (degree f + 1)];
          q = map (\<lambda>(i, (g, _)). smult (coeff f i) g) (List.enumerate 0 qr);
          r = map (\<lambda>(i, (_, h)). smult (coeff f i) h) (List.enumerate 0 qr)
      in (psum q, psum r))"

text \<open>
  \<^verbatim>\<open>__coefficients\<close>: the generator, read to its end. The loop runs while the degree is not
  negative; a run that never ends is the value \<open>None\<close>.
\<close>

partial_function (option) DevelopingValuation__coefficients ::
  "'a::comm_ring_1 DevelopingValuation \<Rightarrow> 'a list \<Rightarrow> 'a list list option" where
  "DevelopingValuation__coefficients self f =
     (if degree f \<ge> 0 then
        (case DevelopingValuation__quo_rem self f of
           (f', r) \<Rightarrow> Option.bind (DevelopingValuation__coefficients self f') (\<lambda>rest. Some (r # rest)))
      else Some [])"

declare DevelopingValuation__coefficients.simps [code]

text \<open>
  \<^verbatim>\<open>coefficients\<close>: the identity check on the parent, then the substitution
  \<open>x \<mapsto> x - \<phi>[0]\<close> for linear \<open>\<phi>\<close> and the division loop otherwise.
\<close>

definition coefficients ::
  "'a::comm_ring_1 DevelopingValuation \<Rightarrow> 'a element \<Rightarrow> (error + 'a element list) option" where
  "coefficients self f =
     (if parent_of f \<noteq> domain self then
        Some (Inl (ValueError ''f must be in the domain of the valuation''))
      else if degree (poly_of (phi self)) = 1 then
        Some (Inr (map (\<lambda>c. Polynomial (parent_of f) (const c))
                     (pcompose (poly_of f)
                        (psub gen (const (coeff (poly_of (phi self)) 0))))))
      else
        map_option (\<lambda>cs. Inr (map (Polynomial (domain self)) cs))
          (DevelopingValuation__coefficients self (poly_of f)))"

text \<open>
  The sum \<open>\<Sum>\<^sub>i f\<^sub>i \<phi>\<^sup>i\<close> of a sequence of coefficients.
\<close>

definition expansion_sum :: "'a::comm_ring_1 list \<Rightarrow> 'a list list \<Rightarrow> 'a list" where
  "expansion_sum g cs = psum (map (\<lambda>(i, c). pmul c (ppow g i)) (List.enumerate 0 cs))"

section \<open>The value group\<close>

text \<open>
  Modelled from the spec: the value group, the rationals with a greatest element
  \<open>Infinity\<close>, totally ordered.
\<close>

datatype val = Finite rat | Infinity

instantiation val :: linorder
begin

fun less_eq_val :: "val \<Rightarrow> val \<Rightarrow> bool" where
  "less_eq_val (Finite a) (Finite b) \<longleftrightarrow> a \<le> b"
| "less_eq_val Infinity (Finite b) \<longleftrightarrow> False"
| "less_eq_val v Infinity \<longleftrightarrow> True"

definition less_val :: "val \<Rightarrow> val \<Rightarrow> bool" where
  "less_val v w \<longleftrightarrow> v \<le> w \<and> \<not> w \<le> v"

instance
proof
  fix x y z :: val
  show "x < y \<longleftrightarrow> x \<le> y \<and> \<not> y \<le> x" by (rule less_val_def)
  show "x \<le> x" by (cases x) simp_all
  show "x \<le> y \<Longrightarrow> y \<le> z \<Longrightarrow> x \<le> z" by (cases x; cases y; cases z) simp_all
  show "x \<le> y \<Longrightarrow> y \<le> x \<Longrightarrow> x = y" by (cases x; cases y) simp_all
  show "x \<le> y \<or> y \<le> x" by (cases x; cases y) auto
qed

end

section \<open>Evaluation and effective degree\<close>

text \<open>
  Modelled from the spec: \<^verbatim>\<open>f.is_zero()\<close>.
\<close>

definition is_zero :: "'a list \<Rightarrow> bool" where
  "is_zero p \<longleftrightarrow> p = []"

text \<open>
  Python's \<^verbatim>\<open>min\<close> of a sequence and the index \<^verbatim>\<open>[-1]\<close> of a list; both raise on the empty one.
\<close>

fun py_min :: "val list \<Rightarrow> error + val" where
  "py_min [] = Inl (ValueError ''min() arg is an empty sequence'')"
| "py_min (x # xs) = Inr (foldl (\<lambda>m w. if w < m then w else m) x xs)"

fun py_last :: "'b list \<Rightarrow> error + 'b" where
  "py_last [] = Inl (IndexError ''list index out of range'')"
| "py_last (x # xs) = Inr (last (x # xs))"

text \<open>
  \<^verbatim>\<open>_call_\<close>: the valuation of \<open>f\<close>.
\<close>

definition call ::
  "('a::comm_ring_1 element \<Rightarrow> val list) \<Rightarrow> 'a DevelopingValuation \<Rightarrow> 'a element \<Rightarrow> error + val" where
  "call valuations self f =
     (if parent_of f \<noteq> domain self then
        Inl (ValueError ''f must be in the domain of the valuation %s but is in %s'')
      else if is_zero (poly_of f) then Inr Infinity
      else py_min (valuations f))"

text \<open>
  \<^verbatim>\<open>effective_degree\<close>: the argument is coerced; \<^verbatim>\<open>self(f)\<close> on the coerced element is
  \<^verbatim>\<open>_call_\<close>.
\<close>

definition effective_degree ::
  "('a::comm_ring_1 element \<Rightarrow> val list) \<Rightarrow> 'a DevelopingValuation \<Rightarrow> 'a element \<Rightarrow> error + nat" where
  "effective_degree valuations self f =
     (case coerce (domain self) f of
        Inl e \<Rightarrow> Inl e
      | Inr f \<Rightarrow>
          if is_zero (poly_of f) then
            Inl (ValueError ''the effective degree is only defined for non-zero polynomials'')
          else
            case call valuations self f of
              Inl e \<Rightarrow> Inl e
            | Inr v \<Rightarrow> py_last [i. (i, w) \<leftarrow> List.enumerate 0 (valuations f), w = v])"

text \<open>
  What the spec requires of an implementation of \<^verbatim>\<open>valuations\<close> at \<open>f\<close>: one value for each
  coefficient of the expansion of \<open>f\<close>.
\<close>

definition evaluator_contract ::
  "('a::comm_ring_1 element \<Rightarrow> val list) \<Rightarrow> 'a DevelopingValuation \<Rightarrow> 'a element \<Rightarrow> bool" where
  "evaluator_contract valuations self f =
     (case coefficients self f of
        Some (Inr cs) \<Rightarrow> length (valuations f) = length cs
      | _ \<Rightarrow> False)"

section \<open>Newton polygons\<close>

text \<open>
  Modelled from the spec: \<^verbatim>\<open>NewtonPolygon\<close> of the library's geometry module, which is not
  part of \<^verbatim>\<open>developing_valuation.py\<close>. The spec describes it as the lower convex hull of the
  points with finite ordinate, points at infinity taking no part. The hull is built by
  adding the points from the right: a vertex is dropped when it lies on or above the
  segment from the new point to the vertex after it. A polygon is the list of its
  vertices.
\<close>

type_synonym point = "nat \<times> rat"

definition cross :: "point \<Rightarrow> point \<Rightarrow> point \<Rightarrow> rat" where
  "cross a b c = (of_nat (fst b) - of_nat (fst a)) * (snd c - snd a)
               - (snd b - snd a) * (of_nat (fst c) - of_nat (fst a))"

fun push :: "point \<Rightarrow> point list \<Rightarrow> point list" where
  "push p (a # b # V) = (if cross p a b \<le> 0 then push p (b # V) else p # a # b # V)"
| "push p V = p # V"

definition lower_hull :: "point list \<Rightarrow> point list" where
  "lower_hull pts = foldr push pts []"

text \<open>
  The lower convex hull as a property: the vertices are points of the set, from its
  leftmost to its rightmost point, with increasing abscissae; consecutive edges turn left;
  every point of the set lies on or above the line through each edge.
\<close>

fun convex_chain :: "point list \<Rightarrow> bool" where
  "convex_chain (a # b # c # V) \<longleftrightarrow> 0 < cross a b c \<and> convex_chain (b # c # V)"
| "convex_chain V \<longleftrightarrow> True"

fun supporting :: "point list \<Rightarrow> point \<Rightarrow> bool" where
  "supporting (a # b # V) q \<longleftrightarrow> 0 \<le> cross a b q \<and> supporting (b # V) q"
| "supporting V q \<longleftrightarrow> True"

definition is_lower_hull :: "point list \<Rightarrow> point list \<Rightarrow> bool" where
  "is_lower_hull P V \<longleftrightarrow>
     set V \<subseteq> set P
   \<and> sorted_wrt (\<lambda>a b. fst a < fst b) V
   \<and> (P \<noteq> [] \<longrightarrow> V \<noteq> [] \<and> hd V = hd P \<and> last V = last P)
   \<and> convex_chain V
   \<and> (\<forall>q\<in>set P. supporting V q)"

text \<open>
  Modelled from the spec: the points with finite ordinate and the polygon of a sequence of points.
\<close>

definition finite_points :: "(nat \<times> val) list \<Rightarrow> point list" where
  "finite_points pts = [(x, y). (x, Finite y) \<leftarrow> pts]"

definition NewtonPolygon :: "(nat \<times> val) list \<Rightarrow> point list" where
  "NewtonPolygon arg = lower_hull (finite_points arg)"

text \<open>
  \<^verbatim>\<open>newton_polygon\<close>: the identity check, then the polygon of the enumerated term valuations.
\<close>

definition newton_polygon ::
  "('a::comm_ring_1 element \<Rightarrow> val list) \<Rightarrow> 'a DevelopingValuation \<Rightarrow> 'a element \<Rightarrow> error + point list" where
  "newton_polygon valuations self f =
     (if parent_of f \<noteq> domain self then
        Inl (ValueError ''f must be in the domain of the valuation'')
      else Inr (NewtonPolygon (List.enumerate 0 (valuations f))))"

section \<open>Examples\<close>

text \<open>
  The examples of the docstrings over the integers: the key polynomial \<open>x\<^sup>2 + x + 1\<close>, a
  linear key polynomial \<open>x + 5\<close>, and an implementation of \<^verbatim>\<open>valuations\<close> that gives the
  \<open>i\<close>-th non-zero coefficient the value \<open>i \<cdot> \<mu>\<close>.
\<close>

definition example_ring :: ring where
  "example_ring = Polynomial_ring [''x'']"

definition example_space :: space where
  "example_space = DiscretePseudoValuationSpace example_ring"

definition example_phi :: "int element" where
  "example_phi = Polynomial example_ring [1, 1, 1]"

definition example_self :: "int DevelopingValuation" where
  "example_self = \<lparr>self_parent = example_space, self_phi = example_phi\<rparr>"

definition weighted_valuations :: "rat \<Rightarrow> int DevelopingValuation \<Rightarrow> int element \<Rightarrow> val list" where
  "weighted_valuations mu self f =
     (case coefficients self f of
        Some (Inr cs) \<Rightarrow>
          map (\<lambda>(i, c). if is_zero (poly_of c) then Infinity else Finite (of_nat i * mu))
            (List.enumerate 0 cs)
      | _ \<Rightarrow> [])"

definition example_valuations :: "int element \<Rightarrow> val list" where
  "example_valuations = weighted_valuations 1 example_self"

definition example_linear_self :: "int DevelopingValuation" where
  "example_linear_self = \<lparr>self_parent = example_space, self_phi = Polynomial example_ring [5, 1]\<rparr>"

section \<open>Properties\<close>

subsection \<open>Coefficients and normal forms\<close>

lemma coeff_Nil [simp]: "coeff [] n = 0"
  by (simp add: coeff_def)

lemma coeff_Cons_0 [simp]: "coeff (a # p) 0 = a"
  by (simp add: coeff_def)

lemma coeff_Cons_Suc [simp]: "coeff (a # p) (Suc n) = coeff p n"
  by (simp add: coeff_def)

lemma coeff_Cons: "coeff (a # p) n = (case n of 0 \<Rightarrow> a | Suc m \<Rightarrow> coeff p m)"
  by (cases n) simp_all

lemma coeff_beyond: "length p \<le> n \<Longrightarrow> coeff p n = 0"
  by (simp add: coeff_def)

lemma strip_Nil_iff: "strip p = [] \<longleftrightarrow> (\<forall>n. coeff p n = 0)"
proof (induction p)
  case Nil
  show ?case by simp
next
  case (Cons a p)
  show ?case
  proof
    assume "strip (a # p) = []"
    then have a: "a = 0" and p: "strip p = []"
      by (auto split: if_splits)
    from p Cons.IH have "\<forall>n. coeff p n = 0" by simp
    with a show "\<forall>n. coeff (a # p) n = 0"
      by (simp add: coeff_Cons split: nat.split)
  next
    assume z: "\<forall>n. coeff (a # p) n = 0"
    then have "coeff (a # p) 0 = 0" by blast
    then have a: "a = 0" by simp
    have "\<forall>n. coeff p n = 0"
    proof
      fix n
      from z have "coeff (a # p) (Suc n) = 0" by blast
      then show "coeff p n = 0" by simp
    qed
    with Cons.IH a show "strip (a # p) = []" by simp
  qed
qed

lemma coeff_strip [simp]: "coeff (strip p) n = coeff p n"
proof (induction p arbitrary: n)
  case Nil
  show ?case by simp
next
  case (Cons a p)
  show ?case
  proof (cases "a = 0 \<and> strip p = []")
    case True
    then have "\<forall>m. coeff p m = 0" by (simp add: strip_Nil_iff)
    with True show ?thesis by (simp add: coeff_Cons split: nat.split)
  next
    case False
    then show ?thesis using Cons.IH by (auto simp: coeff_Cons split: nat.split)
  qed
qed

lemma strip_eqI: "(\<And>n. coeff p n = coeff q n) \<Longrightarrow> strip p = strip q"
proof (induction p arbitrary: q)
  case Nil
  then have "\<forall>n. coeff q n = 0" by simp
  then have "strip q = []" by (simp add: strip_Nil_iff)
  then show ?case by simp
next
  case (Cons a p)
  show ?case
  proof (cases q)
    case Nil
    with Cons.prems have "\<forall>n. coeff (a # p) n = 0" by simp
    then have "strip (a # p) = []" by (subst strip_Nil_iff)
    with Nil show ?thesis by simp
  next
    case (Cons b q')
    from Cons.prems[of 0] Cons have ab: "a = b" by simp
    have "\<And>n. coeff p n = coeff q' n"
      using Cons.prems Cons by (metis coeff_Cons_Suc)
    then have "strip p = strip q'" by (rule Cons.IH)
    with ab Cons show ?thesis by simp
  qed
qed

lemma is_poly_Nil [simp]: "is_poly []"
  by (simp add: is_poly_def)

lemma is_poly_Cons: "is_poly (a # p) \<longleftrightarrow> (if p = [] then a \<noteq> 0 else is_poly p)"
  by (simp add: is_poly_def)

lemma is_poly_tl: "is_poly (a # p) \<Longrightarrow> is_poly p"
  by (simp add: is_poly_Cons split: if_splits)

lemma is_poly_strip [simp]: "is_poly (strip p)"
  by (induction p) (auto simp: is_poly_Cons)

lemma strip_id: "is_poly p \<Longrightarrow> strip p = p"
  by (induction p) (auto simp: is_poly_Cons split: if_splits)

lemma strip_strip [simp]: "strip (strip p) = strip p"
  by (simp add: strip_id)

lemma poly_eqI:
  assumes "is_poly p" and "is_poly q" and "\<And>n. coeff p n = coeff q n"
  shows "p = q"
proof -
  have "strip p = strip q" using assms(3) by (rule strip_eqI)
  with assms(1,2) show ?thesis by (simp add: strip_id)
qed

lemma length_strip_le: "length (strip p) \<le> length p"
  by (induction p) auto

lemma is_poly_last_coeff: "is_poly p \<Longrightarrow> p \<noteq> [] \<Longrightarrow> coeff p (length p - 1) \<noteq> 0"
  by (simp add: is_poly_def coeff_def last_conv_nth)

lemma length_le_if_coeff_0:
  assumes "is_poly p" and "\<And>n. k \<le> n \<Longrightarrow> coeff p n = 0"
  shows "length p \<le> k"
proof (rule ccontr)
  assume "\<not> length p \<le> k"
  then have "p \<noteq> []" and "k \<le> length p - 1" by auto
  with assms show False using is_poly_last_coeff by blast
qed

subsection \<open>Coefficients of the ring operations\<close>

lemma coeff_add_raw: "coeff (add_raw p q) n = coeff p n + coeff (q :: 'a::monoid_add list) n"
proof (induction p q arbitrary: n rule: add_raw.induct)
  case (3 a p b q)
  then show ?case by (cases n) simp_all
qed simp_all

lemma coeff_padd [simp]: "coeff (padd p q) n = coeff p n + coeff (q :: 'a::monoid_add list) n"
  by (simp add: padd_def coeff_add_raw)

lemma coeff_map: "f 0 = 0 \<Longrightarrow> coeff (map f p) n = f (coeff p n)"
  by (simp add: coeff_def)

lemma coeff_smult [simp]: "coeff (smult c p) n = c * coeff (p :: 'a::mult_zero list) n"
  by (simp add: smult_def coeff_map)

lemma coeff_pneg [simp]: "coeff (pneg p) n = - coeff (p :: 'a::group_add list) n"
  by (simp add: pneg_def coeff_map)

lemma coeff_psub [simp]: "coeff (psub p q) n = coeff p n - coeff (q :: 'a::group_add list) n"
  by (simp add: psub_def)

lemma coeff_const: "coeff (const c) n = (if n = 0 then c else 0)"
  by (cases n) (simp_all add: const_def)

lemma coeff_one: "coeff one n = (if n = 0 then 1 else 0)"
  by (simp add: one_def coeff_const)

lemma coeff_replicate_append:
  "coeff (replicate k 0 @ p) n = (if n < k then 0 else coeff p (n - k))"
  by (auto simp: coeff_def nth_append)

lemma coeff_shift: "coeff (shift k p) n = (if n < k then 0 else coeff p (n - k))"
  by (simp add: shift_def coeff_replicate_append)

lemma is_poly_padd [simp]: "is_poly (padd p q)"
  by (simp add: padd_def)

lemma is_poly_smult [simp]: "is_poly (smult c p)"
  by (simp add: smult_def)

lemma is_poly_pneg [simp]: "is_poly (pneg p)"
  by (simp add: pneg_def)

lemma is_poly_psub [simp]: "is_poly (psub p q)"
  by (simp add: psub_def)

lemma is_poly_shift [simp]: "is_poly (shift k p)"
  by (simp add: shift_def)

lemma is_poly_const [simp]: "is_poly (const c)"
  by (simp add: const_def is_poly_def)

lemma is_poly_one [simp]: "is_poly one"
  by (simp add: one_def)

lemma is_poly_gen [simp]: "is_poly gen"
  unfolding gen_def by (rule is_poly_strip)

lemma pmul_Nil [simp]: "pmul [] q = []"
  by (simp add: pmul_def)

lemma pmul_Cons: "pmul (a # p) q = padd (smult a q) (shift 1 (pmul p q))"
  by (simp add: pmul_def)

lemma is_poly_pmul [simp]: "is_poly (pmul p q)"
  by (cases p) (simp_all add: pmul_Cons)

lemma coeff_pmul:
  "coeff (pmul p q) n = (\<Sum>i\<le>n. coeff p i * coeff (q :: 'a::comm_ring_1 list) (n - i))"
proof (induction p arbitrary: n)
  case Nil
  show ?case by simp
next
  case (Cons a p)
  show ?case
  proof (cases n)
    case 0
    then show ?thesis by (simp add: pmul_Cons coeff_shift)
  next
    case (Suc m)
    then show ?thesis
      by (simp add: pmul_Cons coeff_shift Cons.IH sum.atMost_Suc_shift del: sum.atMost_Suc)
  qed
qed

lemma is_poly_ppow [simp]: "is_poly (ppow p n)"
  by (cases n) simp_all

subsection \<open>Ring laws\<close>

lemma padd_commute: "padd p q = padd q (p :: 'a::comm_ring_1 list)"
  by (rule poly_eqI) (simp_all add: add.commute)

lemma padd_assoc: "padd (padd p q) r = padd p (padd q (r :: 'a::comm_ring_1 list))"
  by (rule poly_eqI) (simp_all add: add.assoc)

lemma padd_Nil_left: "padd [] p = strip (p :: 'a::comm_ring_1 list)"
  by (simp add: padd_def)

lemma padd_Nil_right: "padd p [] = strip (p :: 'a::comm_ring_1 list)"
  by (simp add: padd_commute [of p] padd_Nil_left)

lemma padd_left_commute: "padd p (padd q r) = padd q (padd p (r :: 'a::comm_ring_1 list))"
  by (rule poly_eqI) (simp_all add: add.left_commute)

lemma padd_strip_left [simp]: "padd (strip p) q = padd p (q :: 'a::comm_ring_1 list)"
  by (rule poly_eqI) simp_all

lemma padd_strip_right [simp]: "padd p (strip q) = padd p (q :: 'a::comm_ring_1 list)"
  by (rule poly_eqI) simp_all

lemma psub_self: "psub p p = ([] :: 'a::comm_ring_1 list)"
  by (rule poly_eqI) simp_all

lemma pmul_commute: "pmul p q = pmul q (p :: 'a::comm_ring_1 list)"
proof (rule poly_eqI)
  fix n
  have "(\<Sum>i<Suc n. coeff q (Suc n - Suc i) * coeff p (n - (Suc n - Suc i)))
      = (\<Sum>i<Suc n. coeff q i * coeff p (n - i))"
    by (rule sum.nat_diff_reindex [where g = "\<lambda>i. coeff q i * coeff p (n - i)"])
  moreover have "(\<Sum>i<Suc n. coeff q (Suc n - Suc i) * coeff p (n - (Suc n - Suc i)))
      = (\<Sum>i<Suc n. coeff p i * coeff q (n - i))"
    by (rule sum.cong) (simp_all add: mult.commute)
  ultimately show "coeff (pmul p q) n = coeff (pmul q p) n"
    by (simp add: coeff_pmul lessThan_Suc_atMost)
qed simp_all

lemma pmul_Nil_right [simp]: "pmul p [] = ([] :: 'a::comm_ring_1 list)"
  by (simp add: pmul_commute [of p])

lemma pmul_padd_left:
  "pmul (padd p q) r = padd (pmul p r) (pmul q (r :: 'a::comm_ring_1 list))"
  by (rule poly_eqI) (simp_all add: coeff_pmul sum.distrib distrib_right)

lemma pmul_padd_right:
  "pmul r (padd p q) = padd (pmul r p) (pmul r (q :: 'a::comm_ring_1 list))"
  by (simp add: pmul_commute [of r] pmul_padd_left)

lemma pmul_smult_left: "pmul (smult a p) q = smult a (pmul p (q :: 'a::comm_ring_1 list))"
  by (rule poly_eqI) (simp_all add: coeff_pmul sum_distrib_left mult.assoc)

lemma pmul_smult_right: "pmul p (smult a q) = smult a (pmul p (q :: 'a::comm_ring_1 list))"
  by (simp add: pmul_commute [of p] pmul_smult_left)

lemma pmul_shift1_left: "pmul (shift 1 p) q = shift 1 (pmul p (q :: 'a::comm_ring_1 list))"
proof (rule poly_eqI)
  fix n
  show "coeff (pmul (shift 1 p) q) n = coeff (shift 1 (pmul p q)) n"
  proof (cases n)
    case 0
    then show ?thesis by (simp add: coeff_pmul coeff_shift)
  next
    case (Suc m)
    then show ?thesis
      by (simp add: coeff_pmul coeff_shift sum.atMost_Suc_shift del: sum.atMost_Suc)
  qed
qed simp_all

lemma pmul_shift_Suc_0_left:
  "pmul (shift (Suc 0) p) q = shift (Suc 0) (pmul p (q :: 'a::comm_ring_1 list))"
  using pmul_shift1_left [of p q] by simp

lemma pmul_strip_left [simp]: "pmul (strip p) q = pmul p (q :: 'a::comm_ring_1 list)"
  by (rule poly_eqI) (simp_all add: coeff_pmul)

lemma pmul_strip_right [simp]: "pmul p (strip q) = pmul p (q :: 'a::comm_ring_1 list)"
  by (rule poly_eqI) (simp_all add: coeff_pmul)

lemma smult_strip [simp]: "smult c (strip p) = smult c (p :: 'a::comm_ring_1 list)"
  by (rule poly_eqI) simp_all

lemma shift_strip [simp]: "shift k (strip p) = shift k p"
  by (rule poly_eqI) (simp_all add: coeff_shift)

lemma pmul_assoc: "pmul (pmul p q) r = pmul p (pmul q (r :: 'a::comm_ring_1 list))"
proof (induction p)
  case Nil
  show ?case by simp
next
  case (Cons a p)
  then show ?case
    by (simp add: pmul_Cons pmul_padd_left pmul_smult_left pmul_shift_Suc_0_left)
qed

lemma pmul_const_left: "pmul (const c) p = smult c (p :: 'a::comm_ring_1 list)"
  by (rule poly_eqI) (simp_all add: coeff_pmul coeff_const sum.atMost_shift if_distrib [where f = "\<lambda>x. x * _"] cong: if_cong)

lemma pmul_one_left: "pmul one p = strip (p :: 'a::comm_ring_1 list)"
  by (rule poly_eqI) (simp_all add: one_def pmul_const_left)

lemma pmul_one_right: "pmul p one = strip (p :: 'a::comm_ring_1 list)"
  by (simp add: pmul_commute [of p] pmul_one_left)

lemma smult_padd: "smult c (padd p q) = padd (smult c p) (smult c (q :: 'a::comm_ring_1 list))"
  by (rule poly_eqI) (simp_all add: distrib_left)

lemma smult_smult: "smult a (smult b p) = smult (a * b) (p :: 'a::comm_ring_1 list)"
  by (rule poly_eqI) (simp_all add: mult.assoc)

lemma smult_0_left [simp]: "smult 0 p = ([] :: 'a::comm_ring_1 list)"
  by (rule poly_eqI) simp_all

lemma smult_1_left: "smult 1 p = strip (p :: 'a::comm_ring_1 list)"
  by (rule poly_eqI) simp_all

lemma length_le_iff: "is_poly p \<Longrightarrow> length p \<le> k \<longleftrightarrow> (\<forall>n\<ge>k. coeff p n = 0)"
  using length_le_if_coeff_0 [of p k] coeff_beyond [of p] by (meson le_trans)

lemma is_monic_coeff: "is_monic g \<Longrightarrow> coeff g (length g - 1) = 1"
  by (auto simp: is_monic_def coeff_def last_conv_nth)

lemma is_monic_is_poly: "is_monic (g :: 'a::comm_ring_1 list) \<Longrightarrow> is_poly g"
  by (simp add: is_monic_def is_poly_def)

lemma poly_quo_rem_Nil [simp]: "poly_quo_rem [] g = ([], [])"
  by (simp add: poly_quo_rem_def)

lemma poly_quo_rem_Cons: "poly_quo_rem (a # f) g = quo_rem_step g a (poly_quo_rem f g)"
  by (simp add: poly_quo_rem_def)

lemma is_poly_quo_rem: "is_poly (fst (poly_quo_rem f g)) \<and> is_poly (snd (poly_quo_rem f g))"
  by (cases f) (simp_all add: poly_quo_rem_Cons quo_rem_step_def Let_def)

lemma coeff_Cons_shift:
  "coeff (a # f) n = coeff (shift 1 f) n + coeff (const (a :: 'a::comm_ring_1)) n"
  by (cases n) (simp_all add: coeff_shift coeff_const)

lemma poly_quo_rem_eq:
  fixes g :: "'a::comm_ring_1 list"
  shows "coeff f n = coeff (pmul (fst (poly_quo_rem f g)) g) n + coeff (snd (poly_quo_rem f g)) n"
proof (induction f arbitrary: n)
  case Nil
  show ?case by simp
next
  case (Cons a f)
  obtain q r where qr: "poly_quo_rem f g = (q, r)" by (cases "poly_quo_rem f g")
  have IH: "\<And>m. coeff f m = coeff (pmul q g) m + coeff r m"
    using Cons.IH qr by simp
  show ?case
    by (simp add: poly_quo_rem_Cons qr quo_rem_step_def Let_def pmul_padd_left
        pmul_shift_Suc_0_left pmul_const_left coeff_Cons_shift [of a f] coeff_shift IH)
qed

lemma poly_quo_rem_length:
  fixes g :: "'a::comm_ring_1 list"
  assumes g: "is_monic g"
  shows "length (snd (poly_quo_rem f g)) \<le> min (length f) (length g - 1)
       \<and> length (fst (poly_quo_rem f g)) \<le> length f - (length g - 1)"
proof (induction f)
  case Nil
  show ?case by simp
next
  case (Cons a f)
  define d where "d = length g - 1"
  obtain q r where qr: "poly_quo_rem f g = (q, r)" by (cases "poly_quo_rem f g")
  from is_poly_quo_rem [of f g] qr have pq: "is_poly q" and pr: "is_poly r" by simp_all
  from Cons.IH qr have lr: "length r \<le> min (length f) d" and lq: "length q \<le> length f - d"
    by (simp_all add: d_def)
  define s where "s = padd (shift 1 r) (const a)"
  define b where "b = coeff s d"
  have step: "poly_quo_rem (a # f) g = (padd (shift 1 q) (const b), psub s (smult b g))"
    by (simp add: poly_quo_rem_Cons qr quo_rem_step_def Let_def s_def b_def d_def)
  have gd: "coeff g d = 1" unfolding d_def using g by (rule is_monic_coeff)
  have gz: "\<And>n. d < n \<Longrightarrow> coeff g n = 0"
    using g by (intro coeff_beyond) (auto simp: d_def is_monic_def)
  have rz: "\<And>n. min (length f) d \<le> n \<Longrightarrow> coeff r n = 0"
    using lr by (intro coeff_beyond) linarith
  have sz: "\<And>n. Suc (min (length f) d) \<le> n \<Longrightarrow> coeff s n = 0"
    using rz by (auto simp: s_def coeff_shift coeff_const)
  have r1: "length (psub s (smult b g)) \<le> d"
  proof (rule length_le_if_coeff_0)
    fix n assume "d \<le> n"
    then consider "n = d" | "d < n" by linarith
    then show "coeff (psub s (smult b g)) n = 0"
    proof cases
      case 1
      then show ?thesis by (simp add: gd b_def)
    next
      case 2
      then show ?thesis using sz [of n] gz [of n] by simp
    qed
  qed simp
  have r2: "length (psub s (smult b g)) \<le> Suc (length f)"
  proof (cases "length f < d")
    case True
    then have "b = 0" unfolding b_def using sz [of d] by simp
    have "length (psub s (smult b g)) \<le> Suc (length f)"
    proof (rule length_le_if_coeff_0)
      fix n assume "Suc (length f) \<le> n"
      then show "coeff (psub s (smult b g)) n = 0"
        using sz [of n] \<open>b = 0\<close> True by simp
    qed simp
    then show ?thesis .
  next
    case False
    with r1 show ?thesis by simp
  qed
  have q1: "length (padd (shift 1 q) (const b)) \<le> Suc (length f) - d"
  proof (cases "length f < d")
    case True
    then have "b = 0" unfolding b_def using sz [of d] by simp
    moreover from True lq have "q = []" by simp
    ultimately have "padd (shift 1 q) (const b) = []"
      by (simp add: padd_def shift_def const_def)
    then show ?thesis by simp
  next
    case False
    have "length (padd (shift 1 q) (const b)) \<le> Suc (length f - d)"
    proof (rule length_le_if_coeff_0)
      fix n assume n: "Suc (length f - d) \<le> n"
      with lq have "coeff q (n - 1) = 0" by (intro coeff_beyond) simp
      with n show "coeff (padd (shift 1 q) (const b)) n = 0"
        by (simp add: coeff_shift coeff_const)
    qed simp
    with False show ?thesis by simp
  qed
  from r1 r2 q1 show ?case by (simp add: step d_def)
qed

subsection \<open>Sums of polynomials\<close>

lemma psum_Nil [simp]: "psum [] = []"
  by (simp add: psum_def)

lemma foldl_padd:
  fixes a :: "'a::comm_ring_1 list"
  shows "is_poly a \<Longrightarrow> foldl padd a ps = padd a (foldl padd [] ps)"
proof (induction ps arbitrary: a)
  case Nil
  then show ?case by (simp add: padd_Nil_right strip_id)
next
  case (Cons p ps)
  have "foldl padd (padd a p) ps = padd (padd a p) (foldl padd [] ps)"
    by (rule Cons.IH) simp
  moreover have "foldl padd (padd [] p) ps = padd (padd [] p) (foldl padd [] ps)"
    by (rule Cons.IH) simp
  ultimately show ?case
    by (simp add: padd_assoc padd_Nil_left)
qed

lemma psum_Cons [simp]: "psum (p # ps) = padd p (psum (ps :: 'a::comm_ring_1 list list))"
  by (simp add: psum_def padd_Nil_left foldl_padd [of "strip p"])

lemma is_poly_psum [simp]: "is_poly (psum (ps :: 'a::comm_ring_1 list list))"
  by (cases ps) simp_all

lemma coeff_psum: "coeff (psum ps) n = (\<Sum>p\<leftarrow>ps. coeff (p :: 'a::comm_ring_1 list) n)"
  by (induction ps) simp_all

lemma pmul_psum:
  "pmul (psum ps) g = psum (map (\<lambda>p. pmul p g) (ps :: 'a::comm_ring_1 list list))"
  by (induction ps) (simp_all add: pmul_padd_left)

subsection \<open>Division of a polynomial through the monomial table\<close>

lemma coeff_monomial: "coeff (shift i (one :: 'a::comm_ring_1 list)) n = (if n = i then 1 else 0)"
  by (auto simp: coeff_shift coeff_one)

lemma length_monomial: "length (shift i (one :: 'a::comm_ring_1 list)) \<le> Suc i"
proof (rule length_le_if_coeff_0)
  fix n assume "Suc i \<le> n"
  then show "coeff (shift i (one :: 'a list)) n = 0" by (simp add: coeff_monomial)
qed simp

lemma degree_plus_1 [simp]: "nat (degree f + 1) = length f"
  by (simp add: degree_def)

lemma quo_rem_unfold:
  "DevelopingValuation__quo_rem self f =
     (psum (map (\<lambda>i. smult (coeff f i) (fst (DevelopingValuation__quo_rem_monomial self i))) [0..<length f]),
      psum (map (\<lambda>i. smult (coeff f i) (snd (DevelopingValuation__quo_rem_monomial self i))) [0..<length f]))"
  by (simp add: DevelopingValuation__quo_rem_def Let_def enumerate_map_upt split_def o_def)

lemma sum_list_delta:
  "(\<Sum>i\<leftarrow>[0..<N]. c i * (if n = i then 1 else 0)) = (if n < N then c n else (0 :: 'a::comm_ring_1))"
proof -
  have "(\<Sum>i\<leftarrow>[0..<N]. c i * (if n = i then 1 else 0)) = (\<Sum>i\<in>{0..<N}. if n = i then c i else 0)"
    by (simp add: interv_sum_list_conv_sum_set_nat if_distrib [where f = "\<lambda>x. _ * x"] cong: if_cong)
  also have "\<dots> = (if n < N then c n else 0)"
    by simp
  finally show ?thesis .
qed

lemma quo_rem_coeff:
  fixes self :: "'a::comm_ring_1 DevelopingValuation"
  shows "coeff (pmul (fst (DevelopingValuation__quo_rem self f)) (poly_of (phi self))) n
         + coeff (snd (DevelopingValuation__quo_rem self f)) n = coeff f n"
proof -
  let ?g = "poly_of (phi self)"
  let ?M = "DevelopingValuation__quo_rem_monomial self"
  have m: "\<And>i. coeff (pmul (fst (?M i)) ?g) n + coeff (snd (?M i)) n = (if n = i then 1 else 0)"
    using poly_quo_rem_eq [of _ n ?g, symmetric]
    by (simp add: DevelopingValuation__quo_rem_monomial_def coeff_monomial)
  have "coeff (pmul (fst (DevelopingValuation__quo_rem self f)) ?g) n
         + coeff (snd (DevelopingValuation__quo_rem self f)) n
       = (\<Sum>i\<leftarrow>[0..<length f]. coeff f i * (coeff (pmul (fst (?M i)) ?g) n + coeff (snd (?M i)) n))"
    by (simp add: quo_rem_unfold pmul_psum coeff_psum o_def pmul_smult_left
        distrib_left sum_list_addf)
  also have "\<dots> = (\<Sum>i\<leftarrow>[0..<length f]. coeff f i * (if n = i then 1 else 0))"
    by (simp only: m)
  also have "\<dots> = coeff f n"
    by (simp add: sum_list_delta coeff_beyond)
  finally show ?thesis .
qed

lemma sum_list_zero: "(\<And>x. x \<in> set xs \<Longrightarrow> f x = 0) \<Longrightarrow> (\<Sum>x\<leftarrow>xs. f x) = (0 :: 'a::comm_ring_1)"
  by (induction xs) simp_all

lemma quo_rem_length:
  fixes self :: "'a::comm_ring_1 DevelopingValuation"
  assumes g: "is_monic (poly_of (phi self))"
  shows "length (snd (DevelopingValuation__quo_rem self f)) \<le> length (poly_of (phi self)) - 1"
    and "length (fst (DevelopingValuation__quo_rem self f)) \<le> length f - (length (poly_of (phi self)) - 1)"
proof -
  let ?g = "poly_of (phi self)"
  let ?M = "DevelopingValuation__quo_rem_monomial self"
  have M: "\<And>i. length (snd (?M i)) \<le> length ?g - 1 \<and> length (fst (?M i)) \<le> Suc i - (length ?g - 1)"
  proof -
    fix i
    from poly_quo_rem_length [OF g, of "shift i one"] length_monomial [of i, where ?'a = 'a]
    show "length (snd (?M i)) \<le> length ?g - 1 \<and> length (fst (?M i)) \<le> Suc i - (length ?g - 1)"
      unfolding DevelopingValuation__quo_rem_monomial_def Let_def by linarith
  qed
  show "length (snd (DevelopingValuation__quo_rem self f)) \<le> length ?g - 1"
  proof (rule length_le_if_coeff_0)
    fix n assume "length ?g - 1 \<le> n"
    with M have "\<And>i. coeff (snd (?M i)) n = 0"
      by (intro coeff_beyond) (meson le_trans)
    then show "coeff (snd (DevelopingValuation__quo_rem self f)) n = 0"
      by (simp add: quo_rem_unfold coeff_psum o_def)
  qed (simp add: quo_rem_unfold)
  show "length (fst (DevelopingValuation__quo_rem self f)) \<le> length f - (length ?g - 1)"
  proof (rule length_le_if_coeff_0)
    fix n assume n: "length f - (length ?g - 1) \<le> n"
    have "\<And>i. i < length f \<Longrightarrow> coeff (fst (?M i)) n = 0"
    proof (rule coeff_beyond)
      fix i assume "i < length f"
      with n have "Suc i - (length ?g - 1) \<le> n" by linarith
      with M [of i] show "length (fst (?M i)) \<le> n" by linarith
    qed
    then have "(\<Sum>i\<leftarrow>[0..<length f]. coeff f i * coeff (fst (?M i)) n) = 0"
      by (intro sum_list_zero) simp
    then show "coeff (fst (DevelopingValuation__quo_rem self f)) n = 0"
      by (simp add: quo_rem_unfold coeff_psum o_def)
  qed (simp add: quo_rem_unfold)
qed

lemma is_poly_quo_rem_self:
  "is_poly (fst (DevelopingValuation__quo_rem self f)) \<and> is_poly (snd (DevelopingValuation__quo_rem self f))"
  by (simp add: quo_rem_unfold)

lemma quo_rem_eq:
  fixes self :: "'a::comm_ring_1 DevelopingValuation"
  assumes "is_poly f"
  shows "padd (snd (DevelopingValuation__quo_rem self f))
           (pmul (fst (DevelopingValuation__quo_rem self f)) (poly_of (phi self))) = f"
proof (rule poly_eqI)
  fix n
  show "coeff (padd (snd (DevelopingValuation__quo_rem self f))
           (pmul (fst (DevelopingValuation__quo_rem self f)) (poly_of (phi self)))) n = coeff f n"
    using quo_rem_coeff [of self f n] by (simp add: add.commute)
qed (simp_all add: assms)

subsection \<open>The expansion sum\<close>

lemma expansion_sum_Nil [simp]: "expansion_sum g [] = []"
  by (simp add: expansion_sum_def)

lemma expansion_sum_Cons:
  fixes g :: "'a::comm_ring_1 list"
  shows "expansion_sum g (r # cs) = padd r (pmul (expansion_sum g cs) g)"
proof -
  have "map (\<lambda>(i, c). pmul c (ppow g i)) (List.enumerate (Suc 0) cs)
      = map (\<lambda>p. pmul p g) (map (\<lambda>(i, c). pmul c (ppow g i)) (List.enumerate 0 cs))"
    by (simp add: enumerate_Suc_eq [of 0] split_def pmul_assoc)
  then show ?thesis
    by (simp add: expansion_sum_def pmul_psum pmul_one_right)
qed

subsection \<open>The division loop\<close>

lemma coefficients_Nil: "DevelopingValuation__coefficients self [] = Some []"
  by (subst DevelopingValuation__coefficients.simps) (simp add: degree_def)

lemma coefficients_step:
  "f \<noteq> [] \<Longrightarrow> DevelopingValuation__coefficients self f =
     Option.bind (DevelopingValuation__coefficients self (fst (DevelopingValuation__quo_rem self f)))
       (\<lambda>rest. Some (snd (DevelopingValuation__quo_rem self f) # rest))"
  by (subst DevelopingValuation__coefficients.simps) (simp add: degree_def split_def)

lemma coefficients_loop:
  fixes self :: "'a::comm_ring_1 DevelopingValuation"
  assumes g: "is_monic (poly_of (phi self))" and d: "2 \<le> length (poly_of (phi self))"
  shows "is_poly f \<Longrightarrow>
    \<exists>cs. DevelopingValuation__coefficients self f = Some cs
       \<and> expansion_sum (poly_of (phi self)) cs = f
       \<and> (\<forall>c\<in>set cs. is_poly c \<and> length c < length (poly_of (phi self)))
       \<and> (cs = [] \<longleftrightarrow> f = []) \<and> length cs \<le> length f"
proof (induction "length f" arbitrary: f rule: less_induct)
  case less
  show ?case
  proof (cases "f = []")
    case True
    then show ?thesis by (simp add: coefficients_Nil)
  next
    case False
    let ?g = "poly_of (phi self)"
    let ?q = "fst (DevelopingValuation__quo_rem self f)"
    let ?r = "snd (DevelopingValuation__quo_rem self f)"
    from False have "0 < length f" by simp
    with quo_rem_length [OF g, of f] d
    have lr: "length ?r < length ?g" and lq: "length ?q < length f"
      by linarith+
    have pq: "is_poly ?q" and pr: "is_poly ?r"
      by (simp_all add: is_poly_quo_rem_self)
    from less.hyps [OF lq pq] obtain cs where
      cs: "DevelopingValuation__coefficients self ?q = Some cs"
        "expansion_sum ?g cs = ?q"
        "\<forall>c\<in>set cs. is_poly c \<and> length c < length ?g"
        "length cs \<le> length ?q"
      by blast
    have "DevelopingValuation__coefficients self f = Some (?r # cs)"
      by (simp add: coefficients_step [OF False] cs(1))
    moreover have "expansion_sum ?g (?r # cs) = f"
      by (simp add: expansion_sum_Cons cs(2) quo_rem_eq [OF less.prems])
    ultimately show ?thesis
      using cs(3,4) lr pr lq False by simp
  qed
qed

subsection \<open>Substitution\<close>

lemma pcompose_Nil [simp]: "pcompose [] p = []"
  by (simp add: pcompose_def)

lemma pcompose_Cons: "pcompose (a # f) p = padd (pmul (pcompose f p) p) (const a)"
  by (simp add: pcompose_def)

lemma is_poly_pcompose [simp]: "is_poly (pcompose f p)"
  by (cases f) (simp_all add: pcompose_Cons)

lemma const_0 [simp]: "const 0 = []"
  by (simp add: const_def)

lemma pcompose_strip [simp]: "pcompose (strip f) p = pcompose f (p :: 'a::comm_ring_1 list)"
proof (induction f)
  case Nil
  show ?case by simp
next
  case (Cons a f)
  show ?case
  proof (cases "a = 0 \<and> strip f = []")
    case True
    with Cons have "pcompose f p = []" by simp
    with True show ?thesis by (simp add: pcompose_Cons padd_Nil_left)
  next
    case False
    with Cons show ?thesis by (auto simp: pcompose_Cons)
  qed
qed

lemma pcompose_const [simp]: "pcompose (const a) p = const (a :: 'a::comm_ring_1)"
  by (simp add: const_def pcompose_Cons padd_Nil_left)

lemma const_add: "const (a + b) = padd (const a) (const (b :: 'a::comm_ring_1))"
  by (rule poly_eqI) (simp_all add: coeff_const)

lemma pcompose_add_raw:
  fixes r :: "'a::comm_ring_1 list"
  shows "pcompose (add_raw p q) r = padd (pcompose p r) (pcompose q r)"
proof (induction p q rule: add_raw.induct)
  case (1 q)
  show ?case by (simp add: padd_Nil_left strip_id)
next
  case (2 a p)
  show ?case by (simp add: padd_Nil_right strip_id)
next
  case (3 a p b q)
  show ?case
    by (rule poly_eqI) (simp_all add: pcompose_Cons 3 pmul_padd_left const_add algebra_simps)
qed

lemma pcompose_padd:
  "pcompose (padd p q) r = padd (pcompose p r) (pcompose q (r :: 'a::comm_ring_1 list))"
  by (simp add: padd_def [of p q] pcompose_add_raw)

lemma smult_Nil [simp]: "smult a [] = []"
  by (simp add: smult_def)

lemma const_mult: "const (a * b) = smult a (const (b :: 'a::comm_ring_1))"
  by (rule poly_eqI) (simp_all add: coeff_const)

lemma pcompose_smult:
  "pcompose (smult a p) r = smult a (pcompose p (r :: 'a::comm_ring_1 list))"
proof -
  have "pcompose (map (\<lambda>b. a * b) p) r = smult a (pcompose p r)"
    by (induction p) (simp_all add: pcompose_Cons smult_padd pmul_smult_left const_mult)
  then show ?thesis by (simp add: smult_def [of a p])
qed

lemma pcompose_pneg:
  "pcompose (pneg p) r = pneg (pcompose p (r :: 'a::comm_ring_1 list))"
proof -
  have "pneg p = smult (- 1) p" for p :: "'a list"
    by (rule poly_eqI) simp_all
  then show ?thesis by (simp add: pcompose_smult)
qed

lemma pcompose_psub:
  "pcompose (psub p q) r = psub (pcompose p r) (pcompose q (r :: 'a::comm_ring_1 list))"
  by (simp add: psub_def pcompose_padd pcompose_pneg)

lemma pcompose_shift1:
  "pcompose (shift (Suc 0) p) r = pmul (pcompose p r) (r :: 'a::comm_ring_1 list)"
proof -
  have "pcompose (strip (0 # p)) r = pmul (pcompose p r) r"
    by (simp only: pcompose_strip) (simp add: pcompose_Cons padd_Nil_right strip_id)
  then show ?thesis by (simp add: shift_def)
qed

lemma pcompose_pmul:
  fixes r :: "'a::comm_ring_1 list"
  shows "pcompose (pmul p q) r = pmul (pcompose p r) (pcompose q r)"
proof (induction p)
  case Nil
  show ?case by simp
next
  case (Cons a p)
  have "pmul (pmul (pcompose p r) (pcompose q r)) r = pmul (pmul (pcompose p r) r) (pcompose q r)"
    by (simp add: pmul_assoc pmul_commute [of r])
  then show ?case
    by (simp add: pmul_Cons pcompose_padd pcompose_smult pcompose_shift1 Cons.IH
        pcompose_Cons pmul_padd_left pmul_const_left padd_commute)
qed

lemma pcompose_assoc:
  fixes r :: "'a::comm_ring_1 list"
  shows "pcompose (pcompose f p) r = pcompose f (pcompose p r)"
  by (induction f) (simp_all add: pcompose_Cons pcompose_padd pcompose_pmul)

lemma gen_eq: "gen = [0, 1 :: 'a::comm_ring_1]"
  by (simp add: gen_def)

lemma pmul_gen: "pmul p gen = shift (Suc 0) (p :: 'a::comm_ring_1 list)"
proof -
  have "gen = shift (Suc 0) (one :: 'a list)"
    by (simp add: gen_eq shift_def one_def const_def)
  then have "pmul p gen = pmul (shift (Suc 0) one) p"
    by (simp only: pmul_commute [of p])
  then show ?thesis
    by (simp add: pmul_shift_Suc_0_left pmul_one_left)
qed

lemma pcompose_gen_right: "pcompose f gen = strip (f :: 'a::comm_ring_1 list)"
proof (induction f)
  case Nil
  show ?case by simp
next
  case (Cons a f)
  show ?case
  proof (rule poly_eqI)
    fix n
    show "coeff (pcompose (a # f) gen) n = coeff (strip (a # f)) n"
      using coeff_Cons_shift [of a f n]
      by (simp add: pcompose_Cons Cons pmul_gen del: strip.simps)
  qed (simp_all del: strip.simps)
qed

lemma pcompose_gen_left: "pcompose gen p = strip (p :: 'a::comm_ring_1 list)"
  by (simp add: gen_eq pcompose_Cons padd_Nil_left padd_Nil_right one_def [symmetric] const_def
      pmul_Cons shift_def smult_1_left)

subsection \<open>What the constructor establishes\<close>

lemma init_Inr:
  assumes "DevelopingValuation_init parent0 phi0 = Inr self"
  shows "is_monic (poly_of (phi self))" and "2 \<le> length (poly_of (phi self))"
    and "domain self = space_domain parent0" and "is_PolynomialRing (domain self)"
    and "ngens (domain self) = 1" and "coerce (space_domain parent0) phi0 = Inr (phi self)"
    and "self_parent self = parent0"
  using assms
  by (auto simp: DevelopingValuation_init_def Let_def domain_def phi_def is_constant_def degree_def
      split: if_splits sum.splits)


subsection \<open>Linear key polynomials\<close>

lemma linear_phi:
  assumes "is_monic g" and "degree g = 1"
  shows "g = [coeff g 0, 1]"
proof -
  from assms(2) have "length g = 2" by (simp add: degree_def)
  then obtain a b where g: "g = [a, b]"
    by (cases g; cases "tl g") auto
  with assms(1) show ?thesis by (simp add: is_monic_def)
qed

lemma poly_short: "is_poly r \<Longrightarrow> length r \<le> 1 \<Longrightarrow> r = const (coeff r 0)"
  by (cases r) (auto simp: const_def is_poly_def)

lemma subst_back:
  fixes c :: "'a::comm_ring_1"
  shows "pcompose (psub gen (const c)) [c, 1] = gen"
proof -
  have "psub (strip [c, 1]) (const c) = gen"
  proof (rule poly_eqI)
    fix n
    show "coeff (psub (strip [c, 1]) (const c)) n = coeff (gen :: 'a list) n"
      by (cases n; cases "n - 1") (simp_all add: gen_eq coeff_const del: strip.simps)
  qed (simp_all del: strip.simps)
  then show ?thesis
    by (simp add: pcompose_psub pcompose_gen_left del: strip.simps)
qed

lemma subst_forth:
  fixes c :: "'a::comm_ring_1"
  shows "pcompose [c, 1] (psub gen (const c)) = gen"
proof -
  have "padd (pmul (pcompose [1] (psub gen (const c))) (psub gen (const c))) (const c) = gen"
  proof (rule poly_eqI)
    fix n
    have "pcompose [1] (psub gen (const c)) = one"
      by (simp add: pcompose_Cons padd_Nil_left one_def const_def)
    then show "coeff (padd (pmul (pcompose [1] (psub gen (const c))) (psub gen (const c))) (const c)) n
       = coeff (gen :: 'a list) n"
      by (simp add: pmul_one_left)
  qed simp_all
  then show ?thesis by (simp add: pcompose_Cons [of c])
qed

lemma pcompose_roundtrip:
  fixes f :: "'a::comm_ring_1 list"
  shows "pcompose (pcompose f (psub gen (const c))) [c, 1] = strip f"
  by (simp add: pcompose_assoc subst_back pcompose_gen_right del: strip.simps)

lemma expansion_sum_const:
  fixes g :: "'a::comm_ring_1 list"
  shows "expansion_sum g (map const h) = pcompose h g"
  by (induction h) (simp_all add: expansion_sum_Cons pcompose_Cons padd_commute)

lemma padd_const_shift:
  "padd (const a) (shift (Suc 0) p) = strip (a # (p :: 'a::comm_ring_1 list))"
proof (rule poly_eqI)
  fix n
  show "coeff (padd (const a) (shift (Suc 0) p)) n = coeff (strip (a # p)) n"
    using coeff_Cons_shift [of a p n] by (simp add: add.commute del: strip.simps)
qed (simp_all del: strip.simps)

lemma linear_loop:
  fixes self :: "'a::comm_ring_1 DevelopingValuation"
  assumes g: "poly_of (phi self) = [c, 1]"
  shows "is_poly f \<Longrightarrow>
    DevelopingValuation__coefficients self f = Some (map const (pcompose f (psub gen (const c))))"
proof (induction "length f" arbitrary: f rule: less_induct)
  case less
  let ?t = "psub gen (const c)"
  show ?case
  proof (cases "f = []")
    case True
    then show ?thesis by (simp add: coefficients_Nil)
  next
    case False
    let ?q = "fst (DevelopingValuation__quo_rem self f)"
    let ?r = "snd (DevelopingValuation__quo_rem self f)"
    have mon: "is_monic (poly_of (phi self))" by (simp add: g is_monic_def)
    from False have "0 < length f" by simp
    with quo_rem_length [OF mon, of f]
    have lr: "length ?r \<le> 1" and lq: "length ?q < length f"
      unfolding g by (simp, simp, linarith)
    have pq: "is_poly ?q" and pr: "is_poly ?r"
      by (simp_all add: is_poly_quo_rem_self)
    have IH: "DevelopingValuation__coefficients self ?q = Some (map const (pcompose ?q ?t))"
      using lq pq by (rule less.hyps)
    have r: "?r = const (coeff ?r 0)" using pr lr by (rule poly_short)
    have "f = padd ?r (pmul ?q [c, 1])"
      using quo_rem_eq [OF less.prems, of self] by (simp add: g)
    then have "pcompose f ?t = padd (pcompose ?r ?t) (pmul (pcompose ?q ?t) (pcompose [c, 1] ?t))"
      by (metis pcompose_padd pcompose_pmul)
    also have "pcompose ?r ?t = const (coeff ?r 0)"
      by (subst r) simp
    finally have "pcompose f ?t = strip (coeff ?r 0 # pcompose ?q ?t)"
      by (simp only: subst_forth pmul_gen padd_const_shift)
    moreover have "pcompose f ?t \<noteq> []"
    proof
      assume "pcompose f ?t = []"
      then have "pcompose (pcompose f ?t) [c, 1] = []" by simp
      with False less.prems show False by (simp add: pcompose_roundtrip strip_id)
    qed
    ultimately have "pcompose f ?t = coeff ?r 0 # pcompose ?q ?t"
      by (simp add: strip_id split: if_splits)
    then have "map const (pcompose f ?t) = ?r # map const (pcompose ?q ?t)"
      using r by simp
    then show ?thesis
      by (simp add: coefficients_step [OF False] IH)
  qed
qed

subsection \<open>Division with remainder by a monic polynomial is unique\<close>

text \<open>
  Whatever algorithm the polynomial domain uses for \<^verbatim>\<open>quo_rem\<close>, a quotient and a remainder
  of smaller degree than the monic divisor are the ones computed by \<open>poly_quo_rem\<close>.
\<close>

lemma length_pmul_monic:
  fixes q g :: "'a::comm_ring_1 list"
  assumes g: "is_monic g" and q: "is_poly q" "q \<noteq> []"
  shows "length (pmul q g) = length q + length g - 1"
proof -
  define k where "k = length q - 1"
  define d where "d = length g - 1"
  from g have lg: "length g = Suc d" by (simp add: d_def is_monic_def)
  from q have lq: "length q = Suc k" by (simp add: k_def)
  have lead: "coeff q k \<noteq> 0" using is_poly_last_coeff [OF q] by (simp add: k_def)
  have gd: "coeff g d = 1" using is_monic_coeff [OF g] by (simp add: d_def)
  have summand: "coeff q i * coeff g (k + d - i) = (if i = k then coeff q k else 0)" for i
  proof (cases "i = k")
    case True
    then show ?thesis by (simp add: gd)
  next
    case False
    then consider "k < i" | "i < k" by linarith
    then show ?thesis
    proof cases
      case 1
      then have "coeff q i = 0" by (intro coeff_beyond) (simp add: lq)
      with False show ?thesis by simp
    next
      case 2
      then have "coeff g (k + d - i) = 0" by (intro coeff_beyond) (simp add: lg)
      with False show ?thesis by simp
    qed
  qed
  have "coeff (pmul q g) (k + d) = (\<Sum>i\<le>k + d. if i = k then coeff q k else 0)"
    by (simp only: coeff_pmul summand)
  also have "\<dots> = coeff q k" by simp
  finally have top: "coeff (pmul q g) (k + d) \<noteq> 0" using lead by simp
  then have "k + d < length (pmul q g)"
    using coeff_beyond [of "pmul q g" "k + d"] by (meson not_le)
  moreover have "length (pmul q g) \<le> Suc (k + d)"
  proof (rule length_le_if_coeff_0)
    fix n assume n: "Suc (k + d) \<le> n"
    have "coeff q i * coeff g (n - i) = 0" for i
    proof (cases "i \<le> k")
      case True
      with n have "coeff g (n - i) = 0" by (intro coeff_beyond) (simp add: lg)
      then show ?thesis by simp
    next
      case False
      then have "coeff q i = 0" by (intro coeff_beyond) (simp add: lq)
      then show ?thesis by simp
    qed
    then show "coeff (pmul q g) n = 0" by (simp add: coeff_pmul)
  qed simp
  ultimately show ?thesis by (simp add: lq lg)
qed

lemma poly_quo_rem_unique:
  fixes f g :: "'a::comm_ring_1 list"
  assumes g: "is_monic g" and q: "is_poly q" and r: "is_poly r" "length r < length g"
    and f: "f = padd (pmul q g) r"
  shows "poly_quo_rem f g = (q, r)"
proof -
  let ?q = "fst (poly_quo_rem f g)"
  let ?r = "snd (poly_quo_rem f g)"
  from is_poly_quo_rem [of f g] have pq: "is_poly ?q" and pr: "is_poly ?r" by simp_all
  from poly_quo_rem_length [OF g, of f] have lr: "length ?r \<le> length g - 1" by simp
  have eq: "coeff (pmul (psub q ?q) g) n = coeff (psub ?r r) n" for n
  proof -
    have "pmul (psub q ?q) g = psub (pmul q g) (pmul ?q g)"
      by (rule poly_eqI) (simp_all add: coeff_pmul sum_subtractf left_diff_distrib)
    moreover have "coeff (pmul q g) n + coeff r n = coeff (pmul ?q g) n + coeff ?r n"
      using poly_quo_rem_eq [of f n g] by (simp add: f)
    ultimately show ?thesis by (simp add: algebra_simps)
  qed
  have small: "length (psub ?r r) \<le> length g - 1"
  proof (rule length_le_if_coeff_0)
    fix n assume "length g - 1 \<le> n"
    with lr r(2) have "coeff ?r n = 0" "coeff r n = 0" by (auto intro: coeff_beyond)
    then show "coeff (psub ?r r) n = 0" by simp
  qed simp
  have "psub q ?q = []"
  proof (rule ccontr)
    assume ne: "psub q ?q \<noteq> []"
    have "pmul (psub q ?q) g = psub ?r r"
      by (rule poly_eqI) (simp_all add: eq)
    moreover have "length (pmul (psub q ?q) g) = length (psub q ?q) + length g - 1"
      using g _ ne by (rule length_pmul_monic) simp
    ultimately have "length (psub q ?q) + length g - 1 \<le> length g - 1"
      using small by simp
    moreover from g have "0 < length g" by (simp add: is_monic_def)
    moreover from ne have "0 < length (psub q ?q)" by simp
    ultimately show False by linarith
  qed
  then have "coeff (psub q ?q) n = 0" for n by simp
  then have qq: "q = ?q" using q pq by (intro poly_eqI) simp_all
  have "coeff (psub ?r r) n = 0" for n
    using eq [of n] \<open>psub q ?q = []\<close> by simp
  then have "r = ?r" using r(1) pr by (intro poly_eqI) simp_all
  with qq show ?thesis by (simp add: prod_eq_iff)
qed

text \<open>
  In particular \<^verbatim>\<open>__quo_rem\<close>, which adds up the divisions of the monomials of \<open>f\<close>, returns
  the quotient and the remainder of \<open>f\<close> by the key polynomial.
\<close>

lemma quo_rem_is_division:
  fixes self :: "'a::comm_ring_1 DevelopingValuation"
  assumes "DevelopingValuation_init parent0 phi0 = Inr self" and "is_poly f"
  shows "DevelopingValuation__quo_rem self f = poly_quo_rem f (poly_of (phi self))"
proof -
  let ?g = "poly_of (phi self)"
  let ?q = "fst (DevelopingValuation__quo_rem self f)"
  let ?r = "snd (DevelopingValuation__quo_rem self f)"
  note g = init_Inr(1,2) [OF assms(1)]
  have "poly_quo_rem f ?g = (?q, ?r)"
  proof (rule poly_quo_rem_unique [OF g(1)])
    show "is_poly ?q" and "is_poly ?r" by (simp_all add: is_poly_quo_rem_self)
    show "length ?r < length ?g" using quo_rem_length(1) [OF g(1), of f] g(2) by simp
    show "f = padd (pmul ?q ?g) ?r"
      using quo_rem_eq [OF assms(2), of self] by (simp add: padd_commute)
  qed
  then show ?thesis by simp
qed

lemma py_min_eq: "xs \<noteq> [] \<Longrightarrow> py_min xs = Inr (Min (set xs))"
proof (cases xs)
  case (Cons x ys)
  have "(\<lambda>m w. if w < m then w else m) = (\<lambda>m w :: val. min w m)"
    by (intro ext) (auto simp: min_def)
  then have "foldl (\<lambda>m w. if w < m then w else m) x ys = fold min ys x"
    by (simp add: foldl_conv_fold)
  then show ?thesis
    using Min.set_eq_fold [of x ys] by (simp add: Cons)
qed simp

lemma enumerate_nth: "List.enumerate 0 vs = map (\<lambda>i. (i, vs ! i)) [0..<length vs]"
proof -
  have "List.enumerate 0 (map ((!) vs) [0..<length vs]) = map (\<lambda>i. (i, vs ! i)) [0..<length vs]"
    by (rule enumerate_map_upt)
  then show ?thesis by (simp add: map_nth)
qed

lemma comprehension_filter:
  "[i. (i, w) \<leftarrow> ps, w = v] = map fst (filter (\<lambda>p. snd p = v) ps)"
  by (induction ps) auto

lemma concat_map_if: "concat (map (\<lambda>x. if P x then [x] else []) xs) = filter P xs"
  by (induction xs) simp_all

lemma indices_eq:
  "[i. (i, w) \<leftarrow> List.enumerate 0 vs, w = v] = filter (\<lambda>i. vs ! i = v) [0..<length vs]"
  by (simp add: enumerate_nth concat_map_if o_def)

lemma sorted_le_last: "sorted xs \<Longrightarrow> x \<in> set xs \<Longrightarrow> x \<le> last (xs :: nat list)"
  by (induction xs) auto

lemma last_filter_upt:
  assumes "filter P [0..<n] \<noteq> []"
  shows "last (filter P [0..<n]) < n \<and> P (last (filter P [0..<n]))
       \<and> (\<forall>j<n. P j \<longrightarrow> j \<le> last (filter P [0..<n]))"
proof -
  let ?xs = "filter P [0..<n]"
  from assms have "last ?xs \<in> set ?xs" by (rule last_in_set)
  moreover have "sorted ?xs" by (simp add: sorted_wrt_filter)
  then have "\<forall>j\<in>set ?xs. j \<le> last ?xs" using sorted_le_last by blast
  ultimately show ?thesis by auto
qed

lemma py_last_eq: "xs \<noteq> [] \<Longrightarrow> py_last xs = Inr (last xs)"
  by (cases xs) simp_all

lemma coefficients_in_domain:
  fixes self :: "'a::comm_ring_1 DevelopingValuation"
  assumes init: "DevelopingValuation_init parent0 phi0 = Inr self" and f: "is_poly f"
  shows "\<exists>cs. coefficients self (Polynomial (domain self) f) = Some (Inr cs)
             \<and> expansion_sum (poly_of (phi self)) (map poly_of cs) = f
             \<and> (\<forall>c\<in>set cs. parent_of c = domain self \<and> is_poly (poly_of c)
                   \<and> length (poly_of c) < length (poly_of (phi self)))
             \<and> (cs = [] \<longleftrightarrow> f = []) \<and> length cs \<le> length f"
proof (cases "degree (poly_of (phi self)) = 1")
  case True
  let ?g = "poly_of (phi self)"
  let ?h = "pcompose f (psub gen (const (coeff ?g 0)))"
  let ?cs = "map (\<lambda>c. Polynomial (domain self) (const c)) ?h"
  from init_Inr(1) [OF init] True have g: "?g = [coeff ?g 0, 1]" by (rule linear_phi)
  have cs: "coefficients self (Polynomial (domain self) f) = Some (Inr ?cs)"
    by (simp add: coefficients_def True)
  have "pcompose ?h [coeff ?g 0, 1] = f"
    using f by (simp add: pcompose_roundtrip strip_id)
  with g have rt: "pcompose ?h ?g = f" by simp
  then have es: "expansion_sum ?g (map poly_of ?cs) = f"
    by (simp add: o_def expansion_sum_const [symmetric])
  have bound: "\<forall>c\<in>set ?cs. parent_of c = domain self \<and> is_poly (poly_of c) \<and> length (poly_of c) < length ?g"
  proof -
    have "length ?g = 2" by (subst g) simp
    moreover have "length (const c) < 2" for c :: 'a by (simp add: const_def)
    ultimately show ?thesis by simp
  qed
  have "?h = [] \<longleftrightarrow> f = []"
    using rt by auto
  moreover have "length ?h \<le> length f"
  proof -
    from g have "DevelopingValuation__coefficients self f = Some (map const ?h)"
      using f by (rule linear_loop)
    with coefficients_loop [OF init_Inr(1,2) [OF init] f] show ?thesis by auto
  qed
  ultimately show ?thesis using cs es bound by simp
next
  case False
  let ?g = "poly_of (phi self)"
  from coefficients_loop [OF init_Inr(1,2) [OF init] f]
  obtain cs where cs: "DevelopingValuation__coefficients self f = Some cs"
      "expansion_sum ?g cs = f" "\<forall>c\<in>set cs. is_poly c \<and> length c < length ?g" "cs = [] \<longleftrightarrow> f = []"
      "length cs \<le> length f"
    by blast
  have "coefficients self (Polynomial (domain self) f) = Some (Inr (map (Polynomial (domain self)) cs))"
    by (simp add: coefficients_def False cs(1))
  with cs(2-5) show ?thesis by (simp add: o_def)
qed

lemma example_init:
  "DevelopingValuation_init example_space example_phi = Inr example_self"
  by (simp add: DevelopingValuation_init_def example_space_def example_phi_def example_self_def
      example_ring_def is_constant_def is_monic_def degree_def Let_def)

lemma example_linear_init:
  "DevelopingValuation_init example_space (Polynomial example_ring [5, 1]) = Inr example_linear_self"
  by (simp add: DevelopingValuation_init_def example_space_def example_linear_self_def
      example_ring_def is_constant_def is_monic_def degree_def Let_def)

lemma example_domain: "domain example_self = example_ring"
  by (simp add: domain_def example_self_def example_space_def)

lemma example_contract:
  "evaluator_contract example_valuations example_self (Polynomial example_ring [3, 2, 1])"
  by code_simp

lemma degree_less_iff: "degree p < degree q \<longleftrightarrow> length p < length q"
  by (simp add: degree_def)



text \<open>
  Claim C2 (degree bound). Every polynomial yielded by \<open>coefficients\<close> has degree strictly
  below \<open>deg \<phi>\<close>; so have the remainder computed by \<open>__quo_rem\<close> and the remainder of every
  monomial computed by \<open>__quo_rem_monomial\<close>.
\<close>

theorem coefficients_degree_bound:
  fixes self :: "'a::comm_ring_1 DevelopingValuation"
  assumes "DevelopingValuation_init parent0 phi0 = Inr self" and "is_poly f"
  shows "(\<exists>cs. coefficients self (Polynomial (domain self) f) = Some (Inr cs)
             \<and> (\<forall>c\<in>set cs. degree (poly_of c) < degree (poly_of (phi self))))
       \<and> degree (snd (DevelopingValuation__quo_rem self f)) < degree (poly_of (phi self))
       \<and> (\<forall>d. degree (snd (DevelopingValuation__quo_rem_monomial self d)) < degree (poly_of (phi self)))"
proof (intro conjI allI)
  let ?g = "poly_of (phi self)"
  note g = init_Inr(1,2) [OF assms(1)]
  show "\<exists>cs. coefficients self (Polynomial (domain self) f) = Some (Inr cs)
             \<and> (\<forall>c\<in>set cs. degree (poly_of c) < degree ?g)"
    using coefficients_in_domain [OF assms] by (auto simp: degree_less_iff)
  show "degree (snd (DevelopingValuation__quo_rem self f)) < degree ?g"
    using quo_rem_length(1) [OF g(1), of f] g(2) by (simp add: degree_def)
  fix d
  show "degree (snd (DevelopingValuation__quo_rem_monomial self d)) < degree ?g"
    using poly_quo_rem_length [OF g(1), of "shift d one"] g(2)
    by (auto simp: degree_def DevelopingValuation__quo_rem_monomial_def)
qed

theorem coefficients_degree_bound_witness:
  "DevelopingValuation_init example_space example_phi = Inr example_self
   \<and> is_poly [3, 2, 1 :: int]
   \<and> coefficients example_self (Polynomial (domain example_self) [3, 2, 1])
       = Some (Inr [Polynomial example_ring [2, 1], Polynomial example_ring [1]])
   \<and> degree [2, 1 :: int] < degree (poly_of (phi example_self))
   \<and> degree [1 :: int] < degree (poly_of (phi example_self))"
proof -
  have p: "is_poly [3, 2, 1 :: int]" by (simp add: is_poly_def)
  have c: "coefficients example_self (Polynomial (domain example_self) [3, 2, 1])
      = Some (Inr [Polynomial example_ring [2, 1], Polynomial example_ring [1]])"
    by code_simp
  from coefficients_degree_bound [OF example_init p] obtain cs where
    "coefficients example_self (Polynomial (domain example_self) [3, 2, 1]) = Some (Inr cs)"
    "\<forall>c\<in>set cs. degree (poly_of c) < degree (poly_of (phi example_self))"
    by blast
  with c have "degree [2, 1 :: int] < degree (poly_of (phi example_self))"
    and "degree [1 :: int] < degree (poly_of (phi example_self))"
    by auto
  with example_init p c show ?thesis by blast
qed

lemma contract_nonempty:
  fixes self :: "'a::comm_ring_1 DevelopingValuation"
  assumes init: "DevelopingValuation_init parent0 phi0 = Inr self"
    and f: "is_poly f" "f \<noteq> []"
    and c: "evaluator_contract valuations self (Polynomial (domain self) f)"
  shows "valuations (Polynomial (domain self) f) \<noteq> []"
    and "length (valuations (Polynomial (domain self) f)) \<le> length f"
proof -
  from coefficients_in_domain [OF init f(1)] obtain cs where
    cs: "coefficients self (Polynomial (domain self) f) = Some (Inr cs)" "cs = [] \<longleftrightarrow> f = []"
      "length cs \<le> length f"
    by blast
  with c have "length (valuations (Polynomial (domain self) f)) = length cs"
    by (simp add: evaluator_contract_def)
  with cs f(2) show "valuations (Polynomial (domain self) f) \<noteq> []"
    and "length (valuations (Polynomial (domain self) f)) \<le> length f" by auto
qed

lemma call_nonzero:
  fixes self :: "'a::comm_ring_1 DevelopingValuation"
  assumes "DevelopingValuation_init parent0 phi0 = Inr self"
    and "is_poly f" and "f \<noteq> []"
    and "evaluator_contract valuations self (Polynomial (domain self) f)"
  shows "call valuations self (Polynomial (domain self) f)
           = Inr (Min (set (valuations (Polynomial (domain self) f))))"
  using contract_nonempty(1) [OF assms] assms(3)
  by (simp add: call_def is_zero_def py_min_eq)

text \<open>
  Claim C3 (evaluation consistency). Calling the valuation on the zero polynomial of the
  domain returns infinity; on a non-zero \<open>f\<close> of the domain it returns the minimum of the
  term valuations \<open>valuations f\<close>, the evaluator supplying one value per coefficient of the
  expansion.
\<close>

theorem call_evaluation:
  fixes self :: "'a::comm_ring_1 DevelopingValuation"
  assumes "DevelopingValuation_init parent0 phi0 = Inr self"
    and "is_poly f" and "f \<noteq> []"
    and "evaluator_contract valuations self (Polynomial (domain self) f)"
  shows "call valuations self (Polynomial (domain self) []) = Inr Infinity
       \<and> call valuations self (Polynomial (domain self) f)
           = Inr (Min (set (valuations (Polynomial (domain self) f))))"
proof
  show "call valuations self (Polynomial (domain self) []) = Inr Infinity"
    by (simp add: call_def is_zero_def)
  show "call valuations self (Polynomial (domain self) f)
           = Inr (Min (set (valuations (Polynomial (domain self) f))))"
    using assms by (rule call_nonzero)
qed

theorem call_evaluation_witness:
  "DevelopingValuation_init example_space example_phi = Inr example_self
   \<and> is_poly [3, 2, 1 :: int] \<and> [3, 2, 1 :: int] \<noteq> []
   \<and> evaluator_contract example_valuations example_self (Polynomial (domain example_self) [3, 2, 1])
   \<and> call example_valuations example_self (Polynomial (domain example_self) []) = Inr Infinity
   \<and> call example_valuations example_self (Polynomial (domain example_self) [3, 2, 1]) = Inr (Finite 0)"
proof -
  have p: "is_poly [3, 2, 1 :: int]" "[3, 2, 1 :: int] \<noteq> []" by (simp_all add: is_poly_def)
  have c: "evaluator_contract example_valuations example_self (Polynomial (domain example_self) [3, 2, 1])"
    using example_contract by (simp add: example_domain)
  have "example_valuations (Polynomial (domain example_self) [3, 2, 1]) = [Finite 0, Finite 1]"
    by code_simp
  then have "Min (set (example_valuations (Polynomial (domain example_self) [3, 2, 1]))) = Finite 0"
    by simp
  with call_evaluation [OF example_init p c] example_init p c show ?thesis by simp
qed

lemma coerce_idem: "coerce R x = Inr f \<Longrightarrow> coerce R f = Inr f"
  by (cases x) (auto split: if_splits)

lemma effective_degree_coerced:
  "coerce (domain self) x = Inr f \<Longrightarrow>
     effective_degree valuations self x = effective_degree valuations self f"
  by (simp add: effective_degree_def coerce_idem)

lemma effective_degree_nonzero:
  fixes self :: "'a::comm_ring_1 DevelopingValuation"
  assumes init: "DevelopingValuation_init parent0 phi0 = Inr self"
    and f: "is_poly f" "f \<noteq> []"
    and c: "evaluator_contract valuations self (Polynomial (domain self) f)"
  shows "\<exists>i. effective_degree valuations self (Polynomial (domain self) f) = Inr i
      \<and> i < length (valuations (Polynomial (domain self) f))
      \<and> valuations (Polynomial (domain self) f) ! i = Min (set (valuations (Polynomial (domain self) f)))
      \<and> (\<forall>j<length (valuations (Polynomial (domain self) f)).
            valuations (Polynomial (domain self) f) ! j = Min (set (valuations (Polynomial (domain self) f)))
            \<longrightarrow> j \<le> i)"
proof -
  let ?F = "Polynomial (domain self) f"
  let ?vs = "valuations ?F"
  let ?v = "Min (set ?vs)"
  let ?is = "filter (\<lambda>i. ?vs ! i = ?v) [0..<length ?vs]"
  from contract_nonempty(1) [OF init f c] have ne: "?vs \<noteq> []" .
  then have "?v \<in> set ?vs" by (intro Min_in) simp_all
  then obtain k where "k < length ?vs" "?vs ! k = ?v" by (auto simp: in_set_conv_nth)
  then have "k \<in> set ?is" by simp
  then have is_ne: "?is \<noteq> []" by (auto simp: filter_empty_conv)
  have "call valuations self ?F = Inr ?v"
    using ne f(2) by (simp add: call_def is_zero_def py_min_eq)
  then have "effective_degree valuations self ?F = Inr (last ?is)"
    using f(2) is_ne by (simp add: effective_degree_def is_zero_def indices_eq py_last_eq)
  with last_filter_upt [OF is_ne] show ?thesis by blast
qed

lemma coerce_Polynomial:
  "is_PolynomialRing R \<Longrightarrow> coerce R x = Inr y \<Longrightarrow> y = Polynomial R (poly_of y)"
  by (cases x) (auto split: if_splits)

text \<open>
  Claim C4 (effective degree). For an argument \<open>x\<close> that coerces to \<open>F\<close> in the domain,
  \<open>effective_degree\<close> fails with a value error exactly when \<open>F\<close> is zero; for non-zero \<open>F\<close>
  it returns the largest index whose term valuation equals the valuation of \<open>F\<close>; and for a
  non-zero element of the base ring it returns 0.
\<close>

theorem effective_degree_contract:
  fixes self :: "'a::comm_ring_1 DevelopingValuation"
  assumes "DevelopingValuation_init parent0 phi0 = Inr self"
    and "coerce (domain self) x = Inr F" and "is_poly (poly_of F)"
    and "poly_of F \<noteq> [] \<longrightarrow> evaluator_contract valuations self F"
  shows "((\<exists>m. effective_degree valuations self x = Inl (ValueError m)) \<longleftrightarrow> poly_of F = [])
       \<and> (poly_of F \<noteq> [] \<longrightarrow>
            (\<exists>i v. call valuations self F = Inr v
               \<and> effective_degree valuations self x = Inr i
               \<and> i < length (valuations F) \<and> valuations F ! i = v
               \<and> (\<forall>j<length (valuations F). valuations F ! j = v \<longrightarrow> j \<le> i)))
       \<and> (\<forall>c. x = Scalar c \<and> c \<noteq> 0 \<longrightarrow> effective_degree valuations self x = Inr 0)"
proof -
  let ?f = "poly_of F"
  have F: "F = Polynomial (domain self) ?f"
    using init_Inr(4) [OF assms(1)] assms(2) by (rule coerce_Polynomial)
  have ed: "effective_degree valuations self x = effective_degree valuations self F"
    using assms(2) by (rule effective_degree_coerced)
  have zero: "effective_degree valuations self x
      = Inl (ValueError ''the effective degree is only defined for non-zero polynomials'')"
    if "?f = []"
    using that assms(2) by (simp add: effective_degree_def is_zero_def)
  have nonzero: "\<exists>i. effective_degree valuations self x = Inr i
      \<and> i < length (valuations F) \<and> valuations F ! i = Min (set (valuations F))
      \<and> (\<forall>j<length (valuations F). valuations F ! j = Min (set (valuations F)) \<longrightarrow> j \<le> i)
      \<and> call valuations self F = Inr (Min (set (valuations F)))
      \<and> length (valuations F) \<le> length ?f"
    if ne: "?f \<noteq> []"
  proof -
    from ne assms(4) F have c: "evaluator_contract valuations self (Polynomial (domain self) ?f)"
      by simp
    from effective_degree_nonzero [OF assms(1,3) ne c]
      call_nonzero [OF assms(1,3) ne c] contract_nonempty(2) [OF assms(1,3) ne c]
    show ?thesis unfolding ed F [symmetric] by blast
  qed
  have scalar: "effective_degree valuations self x = Inr 0" if "x = Scalar c" "c \<noteq> 0" for c
  proof -
    from that assms(2) have f: "?f = [c]" by (auto simp: const_def split: if_splits)
    with nonzero show ?thesis by auto
  qed
  show ?thesis
  proof (intro conjI impI allI)
    show "(\<exists>m. effective_degree valuations self x = Inl (ValueError m)) \<longleftrightarrow> ?f = []"
      using zero nonzero by (cases "?f = []") auto
    show "\<exists>i v. call valuations self F = Inr v
               \<and> effective_degree valuations self x = Inr i
               \<and> i < length (valuations F) \<and> valuations F ! i = v
               \<and> (\<forall>j<length (valuations F). valuations F ! j = v \<longrightarrow> j \<le> i)"
      if "?f \<noteq> []"
      using nonzero [OF that] by blast
    show "effective_degree valuations self x = Inr 0" if "x = Scalar c \<and> c \<noteq> 0" for c
      using that scalar by blast
  qed
qed

theorem effective_degree_contract_witness:
  "DevelopingValuation_init example_space example_phi = Inr example_self
   \<and> coerce (domain example_self) (Scalar (5 :: int)) = Inr (Polynomial example_ring [5])
   \<and> is_poly (poly_of (Polynomial example_ring [5 :: int]))
   \<and> evaluator_contract example_valuations example_self (Polynomial example_ring [5])
   \<and> effective_degree example_valuations example_self (Scalar 5) = Inr 0
   \<and> coerce (domain example_self) (Polynomial example_ring [3, 2, 1 :: int])
       = Inr (Polynomial example_ring [3, 2, 1])
   \<and> evaluator_contract (weighted_valuations 0 example_self) example_self (Polynomial example_ring [3, 2, 1])
   \<and> weighted_valuations 0 example_self (Polynomial example_ring [3, 2, 1]) = [Finite 0, Finite 0]
   \<and> effective_degree (weighted_valuations 0 example_self) example_self (Polynomial example_ring [3, 2, 1]) = Inr 1
   \<and> coerce (domain example_self) (Scalar (0 :: int)) = Inr (Polynomial example_ring [])
   \<and> (\<exists>m. effective_degree example_valuations example_self (Scalar 0) = Inl (ValueError m))"
proof -
  have c0: "coerce (domain example_self) (Scalar (0 :: int)) = Inr (Polynomial example_ring [])"
    by (simp add: example_domain example_ring_def)
  have p0: "is_poly (poly_of (Polynomial example_ring ([] :: int list)))"
    by simp
  have r0: "\<exists>m. effective_degree example_valuations example_self (Scalar 0) = Inl (ValueError m)"
    using effective_degree_contract [OF example_init c0 p0, of example_valuations] by simp
  have c1: "coerce (domain example_self) (Scalar 5) = Inr (Polynomial example_ring [5::int])"
    by (simp add: example_domain example_ring_def const_def)
  have p1: "is_poly (poly_of (Polynomial example_ring [5 :: int]))"
    by (simp add: is_poly_def)
  have e1: "evaluator_contract example_valuations example_self (Polynomial example_ring [5])"
    by code_simp
  have r1: "effective_degree example_valuations example_self (Scalar 5) = Inr 0"
    using effective_degree_contract [OF example_init c1 p1, of example_valuations] e1 by simp
  let ?F = "Polynomial example_ring [3, 2, 1 :: int]"
  let ?w = "weighted_valuations 0 example_self"
  have c2: "coerce (domain example_self) ?F = Inr ?F"
    by (simp add: example_domain)
  have p2: "is_poly (poly_of ?F)"
    by (simp add: is_poly_def)
  have e2: "evaluator_contract ?w example_self ?F"
    by code_simp
  have v2: "?w ?F = [Finite 0, Finite 0]"
    by code_simp
  from effective_degree_contract [OF example_init c2 p2, of ?w] e2
  obtain i where i: "effective_degree ?w example_self ?F = Inr i" "i < length (?w ?F)"
      "\<forall>j<length (?w ?F). ?w ?F ! j = ?w ?F ! i \<longrightarrow> j \<le> i"
    by auto
  from i(2) have "i = 0 \<or> i = 1" by (auto simp: v2)
  with i(3) [rule_format, of 1] have "i = 1" by (auto simp: v2)
  with i(1) have r2: "effective_degree ?w example_self ?F = Inr 1" by simp
  from example_init c1 p1 e1 r1 c2 e2 v2 r2 c0 r0 show ?thesis by blast
qed

text \<open>
  Claim C5 (termination and the zero case). The division loop returns a finite sequence for
  every \<open>f\<close> of the domain, and this sequence is the result of \<open>coefficients\<close> when
  \<open>deg \<phi> \<ge> 2\<close>; for \<open>f = 0\<close> the loop body never runs and \<open>coefficients\<close> returns the empty
  sequence.
\<close>

theorem coefficients_terminates:
  fixes self :: "'a::comm_ring_1 DevelopingValuation"
  assumes "DevelopingValuation_init parent0 phi0 = Inr self" and "is_poly f"
  shows "(\<exists>cs. DevelopingValuation__coefficients self f = Some cs \<and> length cs \<le> length f
            \<and> (2 \<le> degree (poly_of (phi self)) \<longrightarrow>
                 coefficients self (Polynomial (domain self) f)
                   = Some (Inr (map (Polynomial (domain self)) cs))))
       \<and> DevelopingValuation__coefficients self [] = Some []
       \<and> coefficients self (Polynomial (domain self) []) = Some (Inr [])"
proof (intro conjI)
  from coefficients_loop [OF init_Inr(1,2) [OF assms(1)] assms(2)]
  obtain cs where "DevelopingValuation__coefficients self f = Some cs" "length cs \<le> length f"
    by blast
  then show "\<exists>cs. DevelopingValuation__coefficients self f = Some cs \<and> length cs \<le> length f
            \<and> (2 \<le> degree (poly_of (phi self)) \<longrightarrow>
                 coefficients self (Polynomial (domain self) f)
                   = Some (Inr (map (Polynomial (domain self)) cs)))"
    by (auto simp: coefficients_def)
  show "DevelopingValuation__coefficients self [] = Some []"
    by (rule coefficients_Nil)
  show "coefficients self (Polynomial (domain self) []) = Some (Inr [])"
    using coefficients_in_domain [OF assms(1), of "[]"] by auto
qed

theorem coefficients_terminates_witness:
  "DevelopingValuation_init example_space example_phi = Inr example_self
   \<and> is_poly [3, 2, 1 :: int] \<and> 2 \<le> degree (poly_of (phi example_self))
   \<and> DevelopingValuation__coefficients example_self [3, 2, 1] = Some [[2, 1], [1]]
   \<and> coefficients example_self (Polynomial (domain example_self) [3, 2, 1])
       = Some (Inr [Polynomial (domain example_self) [2, 1], Polynomial (domain example_self) [1]])
   \<and> coefficients example_self (Polynomial (domain example_self) []) = Some (Inr [])"
proof -
  have p: "is_poly [3, 2, 1 :: int]" by (simp add: is_poly_def)
  have d: "2 \<le> degree (poly_of (phi example_self))"
    by (simp add: phi_def example_self_def example_phi_def degree_def)
  have c: "DevelopingValuation__coefficients example_self [3, 2, 1] = Some [[2, 1], [1]]"
    by code_simp
  from coefficients_terminates [OF example_init p] d c example_init p show ?thesis by auto
qed

text \<open>
  Claim C6 (linear and general path agree). When \<open>deg \<phi> = 1\<close>, \<open>coefficients\<close> substitutes
  \<open>x - \<phi>[0]\<close> for \<open>x\<close> in \<open>f\<close> and lists the coefficients of the result; the division loop
  run on the same \<open>f\<close> produces the same sequence, and the sequence reconstructs \<open>f\<close>.
\<close>

theorem linear_general_equivalence:
  fixes self :: "'a::comm_ring_1 DevelopingValuation"
  assumes "DevelopingValuation_init parent0 phi0 = Inr self" and "is_poly f"
    and "degree (poly_of (phi self)) = 1"
  shows "coefficients self (Polynomial (domain self) f)
           = Some (Inr (map (\<lambda>c. Polynomial (domain self) (const c))
                          (pcompose f (psub gen (const (coeff (poly_of (phi self)) 0))))))
       \<and> DevelopingValuation__coefficients self f
           = Some (map const (pcompose f (psub gen (const (coeff (poly_of (phi self)) 0)))))
       \<and> expansion_sum (poly_of (phi self))
           (map const (pcompose f (psub gen (const (coeff (poly_of (phi self)) 0))))) = f"
proof (intro conjI)
  let ?g = "poly_of (phi self)"
  let ?h = "pcompose f (psub gen (const (coeff ?g 0)))"
  from init_Inr(1) [OF assms(1)] assms(3) have g: "?g = [coeff ?g 0, 1]" by (rule linear_phi)
  show "coefficients self (Polynomial (domain self) f)
           = Some (Inr (map (\<lambda>c. Polynomial (domain self) (const c)) ?h))"
    by (simp add: coefficients_def assms(3))
  from g assms(2) show "DevelopingValuation__coefficients self f = Some (map const ?h)"
    by (rule linear_loop)
  have "pcompose ?h [coeff ?g 0, 1] = f"
    using assms(2) by (simp add: pcompose_roundtrip strip_id)
  with g show "expansion_sum ?g (map const ?h) = f"
    by (simp add: expansion_sum_const)
qed

theorem linear_general_equivalence_witness:
  "DevelopingValuation_init example_space (Polynomial example_ring [5, 1]) = Inr example_linear_self
   \<and> is_poly [3, 2, 1 :: int] \<and> degree (poly_of (phi example_linear_self)) = 1
   \<and> coefficients example_linear_self (Polynomial (domain example_linear_self) [3, 2, 1])
       = Some (Inr [Polynomial example_ring [18], Polynomial example_ring [- 8], Polynomial example_ring [1]])
   \<and> DevelopingValuation__coefficients example_linear_self [3, 2, 1] = Some [[18], [- 8], [1]]"
proof -
  have p: "is_poly [3, 2, 1 :: int]" by (simp add: is_poly_def)
  have d: "degree (poly_of (phi example_linear_self)) = 1"
    by (simp add: phi_def example_linear_self_def degree_def)
  have h: "pcompose [3, 2, 1] (psub gen (const (coeff (poly_of (phi example_linear_self)) 0)))
      = [18, - 8, 1 :: int]"
    by code_simp
  have dm: "domain example_linear_self = example_ring"
    by (simp add: domain_def example_linear_self_def example_space_def)
  from linear_general_equivalence [OF example_linear_init p d] example_linear_init p d
  show ?thesis unfolding h by (simp add: dm const_def)
qed




text \<open>
  Claim C8 (identity of the domain). \<open>coefficients\<close>, the valuation call and
  \<open>newton_polygon\<close> each fail with a value error, and return nothing else, whenever the
  parent of \<open>f\<close> is not the domain of the valuation, whether or not \<open>f\<close> could be coerced.
\<close>

theorem domain_identity_check:
  fixes self :: "'a::comm_ring_1 DevelopingValuation"
  shows "parent_of f \<noteq> domain self \<longrightarrow>
           coefficients self f = Some (Inl (ValueError ''f must be in the domain of the valuation''))
         \<and> call valuations self f = Inl (ValueError ''f must be in the domain of the valuation %s but is in %s'')
         \<and> newton_polygon valuations self f
             = Inl (ValueError ''f must be in the domain of the valuation'')"
  by (simp add: coefficients_def call_def newton_polygon_def)

theorem domain_identity_check_witness:
  "parent_of (Scalar (5 :: int)) \<noteq> domain example_self
   \<and> coerce (domain example_self) (Scalar (5 :: int)) = Inr (Polynomial example_ring [5])
   \<and> coefficients example_self (Scalar 5)
       = Some (Inl (ValueError ''f must be in the domain of the valuation''))
   \<and> call example_valuations example_self (Scalar 5)
       = Inl (ValueError ''f must be in the domain of the valuation %s but is in %s'')
   \<and> newton_polygon example_valuations example_self (Scalar 5)
       = Inl (ValueError ''f must be in the domain of the valuation'')"
proof -
  have p: "parent_of (Scalar (5 :: int)) \<noteq> domain example_self"
    by (simp add: example_domain example_ring_def)
  have c: "coerce (domain example_self) (Scalar (5 :: int)) = Inr (Polynomial example_ring [5])"
    by (simp add: example_domain example_ring_def const_def)
  from domain_identity_check [of "Scalar 5" example_self example_valuations] p c
  show ?thesis by blast
qed





subsection \<open>The lower convex hull\<close>

lemma slope_trans:
  fixes A P Q u v t :: rat
  assumes "0 < A" and "0 \<le> P" and "0 \<le> Q" and "A * u \<le> t * Q" and "t * P \<le> A * v"
  shows "P * u \<le> v * Q"
proof -
  have "P * (A * u) \<le> P * (t * Q)"
    using assms(2,4) by (rule mult_left_mono [rotated])
  moreover have "Q * (t * P) \<le> Q * (A * v)"
    using assms(3,5) by (rule mult_left_mono [rotated])
  ultimately have "A * (P * u) \<le> A * (v * Q)"
    by (simp add: mult_ac)
  with assms(1) show ?thesis by simp
qed

lemma cross_cyclic: "cross a b c = cross b c a"
  by (simp add: cross_def algebra_simps)

lemma cross_self [simp]: "cross a b a = 0" "cross a b b = 0"
  by (simp_all add: cross_def)

lemma cross_descend:
  assumes "fst p < fst b" and "fst a < fst b" and "fst b < fst c"
    and "0 \<le> cross a b p" and "0 < cross a b c"
  shows "0 \<le> cross b c p"
proof -
  define A where "A = (of_nat (fst b) - of_nat (fst a) :: rat)"
  define C where "C = (of_nat (fst c) - of_nat (fst b) :: rat)"
  define P' where "P' = (of_nat (fst b) - of_nat (fst p) :: rat)"
  define t where "t = snd b - snd a"
  define cc where "cc = snd c - snd b"
  define pp where "pp = snd p - snd b"
  have pos: "0 < A" "0 \<le> C" "0 \<le> P'"
    using assms(1-3) by (simp_all add: A_def C_def P'_def)
  have 1: "A * (- pp) \<le> t * P'"
    using assms(4) by (simp add: cross_def A_def t_def pp_def P'_def algebra_simps)
  have 2: "t * C \<le> A * cc"
    using assms(5) by (simp add: cross_def A_def t_def cc_def C_def algebra_simps)
  from slope_trans [OF pos(1,2,3) 1 2] have "C * (- pp) \<le> cc * P'" .
  then show ?thesis
    by (simp add: cross_def C_def pp_def cc_def P'_def algebra_simps)
qed

lemma cross_pop:
  assumes "fst p < fst a" and "fst a < fst b" and "fst q \<le> fst b"
    and "cross p a b \<le> 0" and "0 \<le> cross a b q"
  shows "0 \<le> cross p b q"
proof -
  define A where "A = (of_nat (fst b) - of_nat (fst a) :: rat)"
  define P' where "P' = (of_nat (fst b) - of_nat (fst p) :: rat)"
  define Q where "Q = (of_nat (fst b) - of_nat (fst q) :: rat)"
  define ta where "ta = snd b - snd a"
  define tp where "tp = snd b - snd p"
  define tq where "tq = snd b - snd q"
  have pos: "0 < A" "0 \<le> P'" "0 \<le> Q"
    using assms(1-3) by (simp_all add: A_def P'_def Q_def)
  have 1: "A * tq \<le> ta * Q"
    using assms(5) by (simp add: cross_def A_def ta_def tq_def Q_def algebra_simps)
  have 2: "ta * P' \<le> A * tp"
    using assms(4) by (simp add: cross_def A_def ta_def tp_def P'_def algebra_simps)
  from slope_trans [OF pos 1 2] have "P' * tq \<le> tp * Q" .
  then show ?thesis
    by (simp add: cross_def P'_def tq_def tp_def Q_def algebra_simps)
qed

lemma cross_keep:
  assumes "fst p < fst a" and "fst a < fst b" and "fst a \<le> fst q"
    and "0 \<le> cross p a b" and "0 \<le> cross a b q"
  shows "0 \<le> cross p a q"
proof -
  define B where "B = (of_nat (fst b) - of_nat (fst a) :: rat)"
  define P' where "P' = (of_nat (fst a) - of_nat (fst p) :: rat)"
  define Q where "Q = (of_nat (fst q) - of_nat (fst a) :: rat)"
  define tb where "tb = snd b - snd a"
  define tp where "tp = snd a - snd p"
  define tq where "tq = snd q - snd a"
  have pos: "0 < B" "0 \<le> Q" "0 \<le> P'"
    using assms(1-3) by (simp_all add: B_def P'_def Q_def)
  have 1: "B * tp \<le> tb * P'"
    using assms(4) by (simp add: cross_def B_def tb_def tp_def P'_def algebra_simps)
  have 2: "tb * Q \<le> B * tq"
    using assms(5) by (simp add: cross_def B_def tb_def tq_def Q_def algebra_simps)
  from slope_trans [OF pos 1 2] have "Q * tp \<le> tq * P'" .
  then show ?thesis
    by (simp add: cross_def P'_def tq_def tp_def Q_def algebra_simps)
qed

lemma push_set: "set (push p V) \<subseteq> insert p (set V)"
  by (induction p V rule: push.induct) auto

lemma push_hd: "push p V \<noteq> [] \<and> hd (push p V) = p"
  by (induction p V rule: push.induct) auto

lemma push_last: "V \<noteq> [] \<Longrightarrow> last (push p V) = last V"
  by (induction p V rule: push.induct) auto

lemma push_sorted:
  "sorted_wrt (\<lambda>a b. fst a < fst b) V \<Longrightarrow> \<forall>v\<in>set V. fst p < fst v \<Longrightarrow>
     sorted_wrt (\<lambda>a b. fst a < fst b) (push p V)"
  by (induction p V rule: push.induct) auto

lemma convex_chain_tl: "convex_chain (a # V) \<Longrightarrow> convex_chain V"
  by (cases V; cases "tl V") auto

lemma push_convex: "convex_chain V \<Longrightarrow> convex_chain (push p V)"
proof (induction p V rule: push.induct)
  case (1 p a b V)
  then show ?case using convex_chain_tl [of a "b # V"] by auto
qed simp_all

lemma supporting_tl: "supporting (a # V) q \<Longrightarrow> supporting V q"
  by (cases V) auto

lemma supporting_descend:
  assumes "sorted_wrt (\<lambda>a b. fst a < fst b) (a # b # V)" and "convex_chain (a # b # V)"
    and "fst p < fst b" and "0 \<le> cross a b p"
  shows "supporting (a # b # V) p"
  using assms
proof (induction V arbitrary: a b)
  case Nil
  then show ?case by simp
next
  case (Cons c V)
  have "0 \<le> cross b c p"
    using Cons.prems by (intro cross_descend [of p b a c]) auto
  moreover have "supporting (b # c # V) p"
  proof (rule Cons.IH)
    show "sorted_wrt (\<lambda>a b. fst a < fst b) (b # c # V)" using Cons.prems(1) by simp
    show "convex_chain (b # c # V)" using Cons.prems(2) by simp
    show "fst p < fst c" using Cons.prems(1,3) by auto
    show "0 \<le> cross b c p" by fact
  qed
  ultimately show ?case using Cons.prems(4) by simp
qed

lemma push_supporting:
  assumes "sorted_wrt (\<lambda>a b. fst a < fst b) V" and "convex_chain V"
    and "\<forall>v\<in>set V. fst p < fst v"
    and "\<forall>q\<in>Q. fst p < fst q \<and> supporting V q \<and> (V \<noteq> [] \<longrightarrow> fst q \<le> fst (last V))"
    and "\<forall>q\<in>Q. V \<noteq> [] \<and> fst q \<le> fst (hd V) \<longrightarrow> 0 \<le> cross p (hd V) q"
  shows "\<forall>q\<in>insert p Q. supporting (push p V) q"
  using assms
proof (induction p V rule: push.induct)
  case (1 p a b V)
  show ?case
  proof (cases "cross p a b \<le> 0")
    case True
    have "\<forall>q\<in>insert p Q. supporting (push p (b # V)) q"
    proof (rule "1.IH" [OF True])
      show "sorted_wrt (\<lambda>a b. fst a < fst b) (b # V)" using "1.prems"(1) by simp
      show "convex_chain (b # V)" using "1.prems"(2) by (rule convex_chain_tl)
      show "\<forall>v\<in>set (b # V). fst p < fst v" using "1.prems"(3) by simp
      show "\<forall>q\<in>Q. fst p < fst q \<and> supporting (b # V) q
               \<and> (b # V \<noteq> [] \<longrightarrow> fst q \<le> fst (last (b # V)))"
        using "1.prems"(4) by auto
      show "\<forall>q\<in>Q. b # V \<noteq> [] \<and> fst q \<le> fst (hd (b # V)) \<longrightarrow> 0 \<le> cross p (hd (b # V)) q"
      proof (intro ballI impI)
        fix q assume q: "q \<in> Q" "b # V \<noteq> [] \<and> fst q \<le> fst (hd (b # V))"
        with "1.prems"(4) have "0 \<le> cross a b q" by auto
        with True q(2) "1.prems"(1,3) show "0 \<le> cross p (hd (b # V)) q"
          by (auto intro: cross_pop [of p a b q])
      qed
    qed
    with True show ?thesis by simp
  next
    case False
    have "supporting (p # a # b # V) q" if "q \<in> Q" for q
    proof -
      from that "1.prems"(4) have s: "supporting (a # b # V) q" by auto
      have "0 \<le> cross p a q"
      proof (cases "fst q \<le> fst a")
        case True
        with that "1.prems"(5) show ?thesis by auto
      next
        case False
        with \<open>\<not> cross p a b \<le> 0\<close> s "1.prems"(1,3) show ?thesis
          by (intro cross_keep [of p a b q]) auto
      qed
      with s show ?thesis by simp
    qed
    moreover have "supporting (p # a # b # V) p"
    proof -
      have "0 \<le> cross a b p" using False by (simp add: cross_cyclic [of a b p] cross_cyclic [of b p a])
      with "1.prems"(1-3) have "supporting (a # b # V) p"
        by (intro supporting_descend) auto
      then show ?thesis by simp
    qed
    ultimately show ?thesis using False by simp
  qed
qed auto

lemma sorted_fst_le_last:
  "sorted_wrt (\<lambda>a b. fst a < fst b) (S :: point list) \<Longrightarrow> q \<in> set S \<Longrightarrow> fst q \<le> fst (last S)"
proof (induction S arbitrary: q)
  case Nil
  then show ?case by simp
next
  case (Cons a S)
  show ?case
  proof (cases "S = []")
    case True
    with Cons.prems show ?thesis by simp
  next
    case False
    then have l: "last S \<in> set S" by simp
    show ?thesis
    proof (cases "q = a")
      case True
      with Cons.prems(1) l False show ?thesis by (auto simp: less_imp_le)
    next
      case q: False
      with Cons.prems have "fst q \<le> fst (last S)" by (intro Cons.IH) auto
      with False show ?thesis by simp
    qed
  qed
qed

lemma sorted_fst_le_hd:
  "sorted_wrt (\<lambda>a b. fst a < fst b) (S :: point list) \<Longrightarrow> q \<in> set S \<Longrightarrow> fst q \<le> fst (hd S)
     \<Longrightarrow> q = hd S"
proof (cases S)
  case Nil
  assume "q \<in> set S"
  with Nil show ?thesis by simp
next
  case (Cons a S')
  assume "sorted_wrt (\<lambda>a b. fst a < fst b) S" and "q \<in> set S" and "fst q \<le> fst (hd S)"
  with Cons have "\<forall>x\<in>set S'. fst a < fst x" and "q = a \<or> q \<in> set S'" and "fst q \<le> fst a"
    by auto
  then have "q = a" by (metis not_le)
  with Cons show ?thesis by simp
qed

lemma lower_hull_Cons: "lower_hull (p # S) = push p (lower_hull S)"
  by (simp add: lower_hull_def)

lemma lower_hull_correct:
  "sorted_wrt (\<lambda>a b. fst a < fst b) S \<Longrightarrow> is_lower_hull S (lower_hull S)"
proof (induction S)
  case Nil
  show ?case by (simp add: is_lower_hull_def lower_hull_def)
next
  case (Cons p S)
  let ?V = "lower_hull S"
  from Cons have IH: "is_lower_hull S ?V" by simp
  then have sub: "set ?V \<subseteq> set S" and srt: "sorted_wrt (\<lambda>a b. fst a < fst b) ?V"
    and ends: "S \<noteq> [] \<Longrightarrow> ?V \<noteq> [] \<and> hd ?V = hd S \<and> last ?V = last S"
    and cvx: "convex_chain ?V" and sup: "\<forall>q\<in>set S. supporting ?V q"
    by (simp_all add: is_lower_hull_def)
  from Cons.prems have lt: "\<forall>q\<in>set S. fst p < fst q" and sS: "sorted_wrt (\<lambda>a b. fst a < fst b) S"
    by simp_all
  from lt sub have ltV: "\<forall>v\<in>set ?V. fst p < fst v" by blast
  have empty: "?V = []" if "S = []" using that by (simp add: lower_hull_def)
  have 1: "set (push p ?V) \<subseteq> set (p # S)"
    using push_set [of p ?V] sub by auto
  have 2: "sorted_wrt (\<lambda>a b. fst a < fst b) (push p ?V)"
    using srt ltV by (rule push_sorted)
  have 3: "push p ?V \<noteq> [] \<and> hd (push p ?V) = hd (p # S) \<and> last (push p ?V) = last (p # S)"
  proof (cases "S = []")
    case True
    with empty show ?thesis by simp
  next
    case False
    with ends push_last [of ?V p] push_hd [of p ?V] show ?thesis by simp
  qed
  have 4: "convex_chain (push p ?V)"
    using cvx by (rule push_convex)
  have 5: "\<forall>q\<in>insert p (set S). supporting (push p ?V) q"
  proof (rule push_supporting [OF srt cvx ltV])
    show "\<forall>q\<in>set S. fst p < fst q \<and> supporting ?V q \<and> (?V \<noteq> [] \<longrightarrow> fst q \<le> fst (last ?V))"
      using lt sup ends sorted_fst_le_last [OF sS] by (cases "S = []") auto
    show "\<forall>q\<in>set S. ?V \<noteq> [] \<and> fst q \<le> fst (hd ?V) \<longrightarrow> 0 \<le> cross p (hd ?V) q"
    proof (intro ballI impI)
      fix q assume q: "q \<in> set S" "?V \<noteq> [] \<and> fst q \<le> fst (hd ?V)"
      then have "S \<noteq> []" by auto
      with ends q sorted_fst_le_hd [OF sS q(1)] have "q = hd ?V" by simp
      then show "0 \<le> cross p (hd ?V) q" by simp
    qed
  qed
  from 1 2 3 4 5 show ?case
    by (simp add: is_lower_hull_def lower_hull_Cons)
qed

lemma finite_points_Nil [simp]: "finite_points [] = []"
  by (simp add: finite_points_def)

lemma finite_points_Cons [simp]:
  "finite_points ((x, v) # pts) = (case v of Finite y \<Rightarrow> (x, y) # finite_points pts | Infinity \<Rightarrow> finite_points pts)"
  by (simp add: finite_points_def split: val.split)

lemma finite_points_enumerate:
  "(i, y) \<in> set (finite_points (List.enumerate n vs))
     \<longleftrightarrow> n \<le> i \<and> i < n + length vs \<and> vs ! (i - n) = Finite y"
proof (induction vs arbitrary: n)
  case Nil
  show ?case by simp
next
  case (Cons v vs)
  show ?case
  proof (cases "i = n")
    case True
    then show ?thesis using Cons [of "Suc n"] by (auto split: val.split)
  next
    case False
    then have "(n \<le> i \<and> i < n + length (v # vs) \<and> (v # vs) ! (i - n) = Finite y)
        \<longleftrightarrow> (Suc n \<le> i \<and> i < Suc n + length vs \<and> vs ! (i - Suc n) = Finite y)"
      by (cases "i < n") (auto simp: nth_Cons')
    with False show ?thesis using Cons [of "Suc n"] by (auto split: val.split)
  qed
qed

lemma finite_points_sorted:
  "sorted_wrt (\<lambda>a b. fst a < fst b) (finite_points (List.enumerate n vs))"
proof (induction vs arbitrary: n)
  case Nil
  show ?case by simp
next
  case (Cons v vs)
  have "n < fst q" if "q \<in> set (finite_points (List.enumerate (Suc n) vs))" for q
    using that finite_points_enumerate [of "fst q" "snd q" "Suc n" vs] by simp
  with Cons [of "Suc n"] show ?case by (auto split: val.split)
qed

lemma coefficients_zero:
  "parent_of f = domain self \<Longrightarrow> poly_of f = [] \<Longrightarrow> coefficients self f = Some (Inr [])"
  by (simp add: coefficients_def coefficients_Nil)

text \<open>
  Claim C9 (Newton polygon). For every \<open>f\<close> whose parent is the domain, zero included,
  \<open>newton_polygon\<close> returns the lower convex hull of the points \<open>(i, valuations f ! i)\<close> with
  finite second coordinate: its vertices are such points, from the leftmost to the
  rightmost, with strictly increasing abscissae and strictly increasing slopes, and every
  such point lies on or above the line through each edge. Points at infinity are no
  vertices. For \<open>f = 0\<close>, whose expansion is empty, the polygon has no vertex.
\<close>

theorem newton_polygon_lower_hull:
  fixes self :: "'a::comm_ring_1 DevelopingValuation"
  assumes "parent_of f = domain self"
  shows "\<exists>V. newton_polygon valuations self f = Inr V
      \<and> is_lower_hull (finite_points (List.enumerate 0 (valuations f))) V
      \<and> (\<forall>i y. (i, y) \<in> set (finite_points (List.enumerate 0 (valuations f)))
            \<longleftrightarrow> i < length (valuations f) \<and> valuations f ! i = Finite y)
      \<and> (\<forall>(i, y)\<in>set V. i < length (valuations f) \<and> valuations f ! i = Finite y)
      \<and> (is_zero (poly_of f) \<and> evaluator_contract valuations self f \<longrightarrow> V = [])"
proof -
  let ?P = "finite_points (List.enumerate 0 (valuations f))"
  let ?V = "lower_hull ?P"
  have np: "newton_polygon valuations self f = Inr ?V"
    using assms by (simp add: newton_polygon_def NewtonPolygon_def)
  have hull: "is_lower_hull ?P ?V"
    using finite_points_sorted by (rule lower_hull_correct)
  have pts: "\<forall>i y. (i, y) \<in> set ?P \<longleftrightarrow> i < length (valuations f) \<and> valuations f ! i = Finite y"
    by (simp add: finite_points_enumerate)
  from hull have "set ?V \<subseteq> set ?P" by (simp add: is_lower_hull_def)
  with pts have vert: "\<forall>(i, y)\<in>set ?V. i < length (valuations f) \<and> valuations f ! i = Finite y"
    by blast
  have zero: "?V = []" if "is_zero (poly_of f) \<and> evaluator_contract valuations self f"
  proof -
    from that assms have "coefficients self f = Some (Inr [])"
      by (intro coefficients_zero) (simp_all add: is_zero_def)
    with that have "valuations f = []" by (simp add: evaluator_contract_def)
    then show ?thesis by (simp add: lower_hull_def)
  qed
  from np hull pts vert zero show ?thesis by blast
qed

theorem newton_polygon_lower_hull_witness:
  "parent_of (Polynomial example_ring [151, 85, 16, 1 :: int]) = domain example_linear_self
   \<and> weighted_valuations 1 example_linear_self (Polynomial example_ring [151, 85, 16, 1])
       = [Finite 0, Infinity, Finite 2, Finite 3]
   \<and> newton_polygon (weighted_valuations 1 example_linear_self) example_linear_self
         (Polynomial example_ring [151, 85, 16, 1]) = Inr [(0, 0), (3, 3)]
   \<and> is_lower_hull [(0, 0), (2, 2), (3, 3)] [(0, 0), (3, 3)]
   \<and> is_zero (poly_of (Polynomial example_ring ([] :: int list)))
   \<and> evaluator_contract (weighted_valuations 1 example_linear_self) example_linear_self
         (Polynomial example_ring [])
   \<and> newton_polygon (weighted_valuations 1 example_linear_self) example_linear_self
         (Polynomial example_ring []) = Inr []"
proof -
  let ?F = "Polynomial example_ring [151, 85, 16, 1 :: int]"
  let ?Z = "Polynomial example_ring ([] :: int list)"
  let ?w = "weighted_valuations 1 example_linear_self"
  have dm: "domain example_linear_self = example_ring"
    by (simp add: domain_def example_linear_self_def example_space_def)
  have p: "parent_of ?F = domain example_linear_self" "parent_of ?Z = domain example_linear_self"
    by (simp_all add: dm)
  have v: "?w ?F = [Finite 0, Infinity, Finite 2, Finite 3]"
    by code_simp
  have fp: "finite_points (List.enumerate 0 (?w ?F)) = [(0, 0), (2, 2), (3, 3)]"
    unfolding v by simp
  have z: "is_zero (poly_of ?Z)" by (simp add: is_zero_def)
  have c: "evaluator_contract ?w example_linear_self ?Z" by code_simp
  from newton_polygon_lower_hull [OF p(1), of ?w]
  obtain V where V: "newton_polygon ?w example_linear_self ?F = Inr V"
      "is_lower_hull (finite_points (List.enumerate 0 (?w ?F))) V"
    by blast
  have "newton_polygon ?w example_linear_self ?F = Inr [(0, 0), (3, 3)]"
    by (simp add: newton_polygon_def dm NewtonPolygon_def fp lower_hull_def cross_def)
  with V have 1: "newton_polygon ?w example_linear_self ?F = Inr [(0, 0), (3, 3)]"
      "is_lower_hull [(0, 0), (2, 2), (3, 3)] [(0, 0), (3, 3)]"
    by (simp_all add: fp)
  from newton_polygon_lower_hull [OF p(2), of ?w] z c
  have 2: "newton_polygon ?w example_linear_self ?Z = Inr []" by auto
  from p(1) v 1 z c 2 show ?thesis by blast
qed

end
